theory Spec2Isabelle
  imports Complex_Main "HOL-Library.Word" "HOL-Library.Log_Nat"
begin

section \<open>Half-precision numbers\<close>

text \<open>
  The script works on numpy arrays of dtype \<open>float16\<close>: IEEE 754 binary16, one sign bit, five
  exponent bits (bias 15) and ten fraction bits. An element is its 16-bit pattern, which is
  also what \<open>tofile\<close> writes.
\<close>

type_synonym half = "16 word"

type_synonym byte = "8 word"

text \<open>
  What a bit pattern denotes. The sign of a zero is read from the pattern (\<open>half_sign\<close>),
  not from the value.
\<close>

datatype fval = Finite real | PInf | NInf | NaN

definition half_sign :: "half \<Rightarrow> bool" where
  "half_sign h = (32768 \<le> unat h)"

definition half_exp :: "half \<Rightarrow> nat" where
  "half_exp h = (unat h div 1024) mod 32"

definition half_frac :: "half \<Rightarrow> nat" where
  "half_frac h = unat h mod 1024"

definition half_val :: "half \<Rightarrow> fval" where
  "half_val h =
     (if half_exp h = 31
      then (if half_frac h = 0 then (if half_sign h then NInf else PInf) else NaN)
      else Finite ((if half_sign h then - 1 else 1) *
             (if half_exp h = 0 then real (half_frac h) / 2 ^ 24
              else real (1024 + half_frac h) * 2 ^ half_exp h / 2 ^ 25)))"

definition is_finite :: "half \<Rightarrow> bool" where
  "is_finite h = (half_exp h \<noteq> 31)"

text \<open>The real number a finite pattern denotes (0 for the others, which callers exclude).\<close>

definition half_real :: "half \<Rightarrow> real" where
  "half_real h = (case half_val h of Finite x \<Rightarrow> x | _ \<Rightarrow> 0)"

subsection \<open>Rounding to half precision\<close>

text \<open>
  \<open>astype(np.float16)\<close> and every float16 operation of numpy round to nearest, ties to even
  (IEEE 754 roundTiesToEven). \<open>round_even\<close> is that rule on the integers.
\<close>

definition round_even :: "real \<Rightarrow> int" where
  "round_even x =
     (let n = \<lfloor>x\<rfloor>; d = x - of_int n
      in if d < 1 / 2 then n else if 1 / 2 < d then n + 1 else if even n then n else n + 1)"

text \<open>
  The biased exponent of the binade a magnitude falls in, kept within 1..30: magnitudes below
  \<open>2 ^ -14\<close> are rounded on the subnormal grid, which has the spacing of exponent 1, and
  magnitudes from \<open>2 ^ 16\<close> on overflow from exponent 30.
\<close>

definition bexp :: "real \<Rightarrow> nat" where
  "bexp a = max 1 (min 30 (floorlog 2 (nat \<lfloor>a * 16384\<rfloor>)))"

text \<open>
  Sign and magnitude to a pattern. The magnitude is rounded to a multiple \<open>n\<close> of the spacing
  \<open>2 ^ (E - 25)\<close>; the pattern below the sign bit is \<open>(E - 1) * 1024 + n\<close> (a carry out of the
  fraction moves to the next exponent by itself), and everything from 0x7C00 = 31744 on is
  infinity.
\<close>

definition half_round :: "bool \<Rightarrow> real \<Rightarrow> half" where
  "half_round s a =
     (let E = bexp a;
          n = nat (round_even (a * 2 ^ 25 / 2 ^ E));
          mag = min 31744 ((E - 1) * 1024 + n)
      in word_of_nat ((if s then 32768 else 0) + mag))"

text \<open>The magnitude \<open>half_round\<close> rounds to, as a real number (when it does not overflow).\<close>

definition round_mag :: "real \<Rightarrow> real" where
  "round_mag a = real (nat (round_even (a * 2 ^ 25 / 2 ^ bexp a))) * 2 ^ bexp a / 2 ^ 25"

definition half_of_real :: "real \<Rightarrow> half" where
  "half_of_real x = half_round (x < 0) \<bar>x\<bar>"

definition half_inf :: "bool \<Rightarrow> half" where
  "half_inf s = (if s then 0xFC00 else 0x7C00)"

definition half_zero :: "bool \<Rightarrow> half" where
  "half_zero s = (if s then 0x8000 else 0)"

text \<open>The quiet NaN numpy produces; payloads of NaN operands are not tracked.\<close>

definition half_nan :: half where
  "half_nan = 0x7E00"

definition half_of_fval :: "fval \<Rightarrow> half" where
  "half_of_fval v =
     (case v of Finite x \<Rightarrow> half_of_real x | PInf \<Rightarrow> half_inf False | NInf \<Rightarrow> half_inf True
      | NaN \<Rightarrow> half_nan)"

subsection \<open>Arithmetic on half-precision numbers\<close>

text \<open>
  numpy adds and multiplies float16 values by converting both to float32, operating there and
  rounding the result back. A float32 holds the product of two float16 values exactly and
  has enough digits for the second rounding of a sum to be harmless, so the result is the
  exact sum or product rounded once, as IEEE 754 defines the operation on binary16.
\<close>

definition add16 :: "half \<Rightarrow> half \<Rightarrow> half" where
  "add16 a b =
     (case (half_val a, half_val b) of
        (NaN, _) \<Rightarrow> half_nan
      | (_, NaN) \<Rightarrow> half_nan
      | (PInf, NInf) \<Rightarrow> half_nan
      | (NInf, PInf) \<Rightarrow> half_nan
      | (PInf, _) \<Rightarrow> half_inf False
      | (NInf, _) \<Rightarrow> half_inf True
      | (_, PInf) \<Rightarrow> half_inf False
      | (_, NInf) \<Rightarrow> half_inf True
      | (Finite x, Finite y) \<Rightarrow>
          (if x + y = 0 then half_zero (half_sign a \<and> half_sign b)
           else half_round (x + y < 0) \<bar>x + y\<bar>))"

definition mul16 :: "half \<Rightarrow> half \<Rightarrow> half" where
  "mul16 a b =
     (let s = (half_sign a \<noteq> half_sign b)
      in case (half_val a, half_val b) of
        (NaN, _) \<Rightarrow> half_nan
      | (_, NaN) \<Rightarrow> half_nan
      | (Finite x, Finite y) \<Rightarrow> half_round s \<bar>x * y\<bar>
      | (Finite x, _) \<Rightarrow> (if x = 0 then half_nan else half_inf s)
      | (_, Finite y) \<Rightarrow> (if y = 0 then half_nan else half_inf s)
      | (_, _) \<Rightarrow> half_inf s)"

subsection \<open>The transcendental functions of the numeric library\<close>

text \<open>
  \<open>np.exp\<close>, \<open>np.log\<close> and \<open>np.tanh\<close> on a float16 array convert each element to float32, call
  the library's single-precision routine and round its result to float16. The routines are
  not part of the script, and their results are not fixed to the last bit, so they are
  parameters: each maps the value of the argument to the value of its float32 result.
\<close>

record mathlib =
  exp_f32 :: "fval \<Rightarrow> fval"
  log_f32 :: "fval \<Rightarrow> fval"
  tanh_f32 :: "fval \<Rightarrow> fval"

definition np_exp :: "mathlib \<Rightarrow> half \<Rightarrow> half" where
  "np_exp L h = half_of_fval (exp_f32 L (half_val h))"

definition np_log :: "mathlib \<Rightarrow> half \<Rightarrow> half" where
  "np_log L h = half_of_fval (log_f32 L (half_val h))"

definition np_tanh :: "mathlib \<Rightarrow> half \<Rightarrow> half" where
  "np_tanh L h = half_of_fval (tanh_f32 L (half_val h))"

text \<open>
  A routine is accurate at an argument when its result is a number within a relative error
  of \<open>2 ^ -13\<close> of the exact one. Single-precision routines are some thousand times better
  than that.
\<close>

definition close_to :: "fval \<Rightarrow> real \<Rightarrow> bool" where
  "close_to v y = (case v of Finite r \<Rightarrow> \<bar>r - y\<bar> \<le> \<bar>y\<bar> / 8192 | _ \<Rightarrow> False)"

definition accurate :: "mathlib \<Rightarrow> bool" where
  "accurate L \<longleftrightarrow>
     (\<forall>x. 0 \<le> x \<and> x \<le> 16 \<longrightarrow> close_to (exp_f32 L (Finite x)) (exp x)) \<and>
     (\<forall>x. 1 \<le> x \<and> x \<le> 65504 \<longrightarrow> close_to (log_f32 L (Finite x)) (ln x)) \<and>
     (\<forall>x. 0 \<le> x \<and> x \<le> 16 \<longrightarrow> close_to (tanh_f32 L (Finite x)) (tanh x))"

text \<open>The library whose routines return the exact value (for \<open>log\<close>, on positive arguments).\<close>

definition exact_lib :: mathlib where
  "exact_lib =
     \<lparr> exp_f32 = (\<lambda>v. case v of Finite x \<Rightarrow> Finite (exp x) | PInf \<Rightarrow> PInf
                       | NInf \<Rightarrow> Finite 0 | NaN \<Rightarrow> NaN),
       log_f32 = (\<lambda>v. case v of Finite x \<Rightarrow> (if 0 < x then Finite (ln x)
                                              else if x = 0 then NInf else NaN)
                       | PInf \<Rightarrow> PInf | NInf \<Rightarrow> NaN | NaN \<Rightarrow> NaN),
       tanh_f32 = (\<lambda>v. case v of Finite x \<Rightarrow> Finite (tanh x) | PInf \<Rightarrow> Finite 1
                        | NInf \<Rightarrow> Finite (- 1) | NaN \<Rightarrow> NaN) \<rparr>"

section \<open>Tensors\<close>

text \<open>A two-dimensional array in row-major order: the list of its rows.\<close>

type_synonym 'a tensor = "'a list list"

definition shape :: "'a tensor \<Rightarrow> nat list" where
  "shape t = map length t"

definition tmap :: "('a \<Rightarrow> 'b) \<Rightarrow> 'a tensor \<Rightarrow> 'b tensor" where
  "tmap f t = map (map f) t"

text \<open>Elementwise product of two arrays of the same shape (no broadcasting is involved).\<close>

definition tmul :: "half tensor \<Rightarrow> half tensor \<Rightarrow> half tensor" where
  "tmul a b = map2 (map2 mul16) a b"

text \<open>
  \<open>np.random.uniform(low, high, [rows, cols])\<close> fills the array in row-major order with
  \<open>low + (high - low) * u\<close>, where each \<open>u\<close> is the next number of the generator, which numpy
  takes from \<open>[0, 1)\<close>. The generator is the sequence \<open>draw\<close> of those numbers, and
  \<open>unit_draws\<close> states that the first \<open>n\<close> of them lie in that interval. The samples are kept
  as real numbers; the rounding of the float64 arithmetic is far below the float16 spacing.
\<close>

definition uniform :: "real \<Rightarrow> real \<Rightarrow> nat \<Rightarrow> nat \<Rightarrow> (nat \<Rightarrow> real) \<Rightarrow> real tensor" where
  "uniform low high rows cols draw =
     map (\<lambda>i. map (\<lambda>j. low + (high - low) * draw (i * cols + j)) [0..<cols]) [0..<rows]"

definition unit_draws :: "nat \<Rightarrow> (nat \<Rightarrow> real) \<Rightarrow> bool" where
  "unit_draws n draw \<longleftrightarrow> (\<forall>k<n. 0 \<le> draw k \<and> draw k < 1)"

definition astype_float16 :: "real tensor \<Rightarrow> half tensor" where
  "astype_float16 t = tmap half_of_real t"

section \<open>The file system\<close>

text \<open>
  What \<open>tofile\<close> needs of the file system: which directories exist, whether files can be
  written in them, and the contents of the files. \<open>tofile\<close> opens the path for writing,
  which creates or truncates the file and fails when the directory is missing or refuses.
\<close>

record filesystem =
  dirs :: "string \<rightharpoonup> bool"
  files :: "string \<rightharpoonup> byte list"

datatype os_error = FileNotFoundError string | PermissionError string

definition dirname :: "string \<Rightarrow> string" where
  "dirname p = rev (dropWhile (\<lambda>c. c \<noteq> CHR ''/'') (rev p))"

text \<open>The two bytes of an element, least significant first.\<close>

definition half_bytes :: "half \<Rightarrow> byte list" where
  "half_bytes h = [ucast h, ucast (drop_bit 8 h)]"

definition tobytes :: "half tensor \<Rightarrow> byte list" where
  "tobytes t = concat (map half_bytes (concat t))"

definition tofile :: "half tensor \<Rightarrow> string \<Rightarrow> filesystem \<Rightarrow> os_error + filesystem" where
  "tofile t p fs =
     (case dirs fs (dirname p) of
        None \<Rightarrow> Inl (FileNotFoundError p)
      | Some w \<Rightarrow> if w then Inr (fs\<lparr>files := (files fs)(p \<mapsto> tobytes t)\<rparr>)
                  else Inl (PermissionError p))"

section \<open>The generator\<close>

definition input_path :: string where
  "input_path = ''./AclNNInvocation/input/input_x.bin''"

definition golden_path :: string where
  "golden_path = ''./AclNNInvocation/output/golden.bin''"

definition gen_input :: "(nat \<Rightarrow> real) \<Rightarrow> half tensor" where
  "gen_input draw = astype_float16 (uniform 1 10 8 2048 draw)"

text \<open>The literal \<open>1\<close> of the script joins a float16 array as the float16 number 1.\<close>

definition mish :: "mathlib \<Rightarrow> half tensor \<Rightarrow> half tensor" where
  "mish L input_x =
     tmul input_x (tmap (np_tanh L) (tmap (np_log L)
       (tmap (add16 (half_of_real 1)) (tmap (np_exp L) input_x))))"

text \<open>
  A run returns the file system it leaves behind, with the exception that ended it, if any.
  Nothing in the script catches an exception.
\<close>

definition gen_golden_data_simple ::
  "mathlib \<Rightarrow> (nat \<Rightarrow> real) \<Rightarrow> filesystem \<Rightarrow> os_error option \<times> filesystem" where
  "gen_golden_data_simple L draw fs =
     (let input_x = gen_input draw;
          golden = mish L input_x
      in case tofile input_x input_path fs of
           Inl e \<Rightarrow> (Some e, fs)
         | Inr fs1 \<Rightarrow>
             (case tofile golden golden_path fs1 of
                Inl e \<Rightarrow> (Some e, fs1)
              | Inr fs2 \<Rightarrow> (None, fs2)))"

section \<open>Sample runs\<close>

text \<open>Concrete generators and file systems, used to exercise the theorems below.\<close>

definition sample_draw :: "nat \<Rightarrow> real" where
  "sample_draw k = real (k mod 9) / 9"

text \<open>A generator that hands out 0.9999 every time, so that every sample is 9.9991.\<close>

definition high_draw :: "nat \<Rightarrow> real" where
  "high_draw k = 9999 / 10000"

definition fs_ready :: filesystem where
  "fs_ready =
     \<lparr> dirs = [''./AclNNInvocation/input/'' \<mapsto> True, ''./AclNNInvocation/output/'' \<mapsto> True],
       files = Map.empty \<rparr>"

definition fs_no_output :: filesystem where
  "fs_no_output = \<lparr> dirs = [''./AclNNInvocation/input/'' \<mapsto> True], files = Map.empty \<rparr>"

definition fs_readonly_input :: filesystem where
  "fs_readonly_input =
     \<lparr> dirs = [''./AclNNInvocation/input/'' \<mapsto> False, ''./AclNNInvocation/output/'' \<mapsto> True],
       files = Map.empty \<rparr>"

section \<open>Rounding\<close>



lemma round_even_ge: "of_int k \<le> x \<Longrightarrow> k \<le> round_even x"
proof -
  assume "of_int k \<le> x"
  then have "k \<le> \<lfloor>x\<rfloor>" by (simp add: le_floor_iff)
  then show ?thesis by (auto simp: round_even_def Let_def)
qed

lemma round_even_le: "x \<le> of_int m \<Longrightarrow> round_even x \<le> m"
proof -
  assume h: "x \<le> of_int m"
  show ?thesis
  proof (cases "x = of_int m")
    case True
    then show ?thesis by (simp add: round_even_def Let_def)
  next
    case False
    with h have "x < of_int m" by simp
    then have "\<lfloor>x\<rfloor> < m" by (simp add: floor_less_iff)
    then show ?thesis by (auto simp: round_even_def Let_def)
  qed
qed

lemma round_even_lt_half: "x < of_int m + 1 / 2 \<Longrightarrow> round_even x \<le> m"
proof -
  assume h: "x < of_int m + 1 / 2"
  then have "x < of_int (m + 1)" by simp
  then have "\<lfloor>x\<rfloor> < m + 1" by (simp only: floor_less_iff)
  then have f: "\<lfloor>x\<rfloor> \<le> m" by simp
  show ?thesis
  proof (cases "\<lfloor>x\<rfloor> = m")
    case True
    with h have "x - of_int \<lfloor>x\<rfloor> < 1 / 2" by simp
    then show ?thesis using True by (simp add: round_even_def Let_def)
  next
    case False
    with f have "\<lfloor>x\<rfloor> < m" by simp
    then show ?thesis by (auto simp: round_even_def Let_def)
  qed
qed

lemma round_even_gt_half: "of_int k - 1 / 2 < x \<Longrightarrow> k \<le> round_even x"
proof -
  assume h: "of_int k - 1 / 2 < x"
  then have "of_int (k - 1) \<le> x" by simp
  then have f: "k - 1 \<le> \<lfloor>x\<rfloor>" by (simp only: le_floor_iff)
  show ?thesis
  proof (cases "\<lfloor>x\<rfloor> = k - 1")
    case True
    with h have "1 / 2 < x - of_int \<lfloor>x\<rfloor>" by simp
    then show ?thesis using True by (simp add: round_even_def Let_def)
  next
    case False
    with f have "k \<le> \<lfloor>x\<rfloor>" by simp
    then show ?thesis by (auto simp: round_even_def Let_def)
  qed
qed

lemma bexp_range: "1 \<le> bexp a \<and> bexp a \<le> 30"
  by (simp add: bexp_def)

lemma bexp_lower: "1 < bexp a \<Longrightarrow> 2 ^ bexp a \<le> a * 32768"
proof -
  let ?m = "nat \<lfloor>a * 16384\<rfloor>"
  assume h: "1 < bexp a"
  then have le: "bexp a \<le> floorlog 2 ?m" by (auto simp: bexp_def max_def min_def split: if_splits)
  with h have "0 < bexp a" by simp
  from floorlog_geD[OF le this] have "(2::nat) ^ (bexp a - 1) \<le> ?m" .
  moreover from this have "0 < ?m" by (rule less_le_trans[rotated]) simp
  ultimately have "int ((2::nat) ^ (bexp a - 1)) \<le> \<lfloor>a * 16384\<rfloor>"
    by (simp add: le_nat_iff)
  then have "(2::real) ^ (bexp a - 1) \<le> a * 16384" by (simp add: le_floor_iff)
  moreover have "(2::real) ^ bexp a = 2 * 2 ^ (bexp a - 1)" using h by (cases "bexp a") auto
  ultimately show ?thesis by simp
qed

lemma bexp_upper: "bexp a < 30 \<Longrightarrow> a * 32768 < 2 ^ (bexp a + 1)"
proof -
  let ?m = "nat \<lfloor>a * 16384\<rfloor>"
  assume h: "bexp a < 30"
  then have le: "floorlog 2 ?m \<le> bexp a" by (auto simp: bexp_def max_def min_def split: if_splits)
  from floorlog_leD[OF le] have "?m < 2 ^ bexp a" by simp
  then have "\<lfloor>a * 16384\<rfloor> < (2::int) ^ bexp a" by (simp add: nat_less_iff)
  then have "a * 16384 < 2 ^ bexp a" by (simp add: floor_less_iff)
  then show ?thesis by simp
qed

lemma unat_half: "n < 65536 \<Longrightarrow> unat (word_of_nat n :: half) = n"
  by (simp add: unat_of_nat)

lemma half_fields:
  assumes "mag < 32768"
  shows "half_sign (word_of_nat ((if s then 32768 else 0) + mag)) = s"
    and "half_exp (word_of_nat ((if s then 32768 else 0) + mag)) = mag div 1024"
    and "half_frac (word_of_nat ((if s then 32768 else 0) + mag)) = mag mod 1024"
proof -
  have u: "unat (word_of_nat ((if s then 32768 else 0) + mag) :: half) = (if s then 32768 else 0) + mag"
    using assms by (intro unat_half) (cases s, simp_all)
  show "half_sign (word_of_nat ((if s then 32768 else 0) + mag)) = s"
    unfolding half_sign_def u using assms by simp
  have k: "mag div 1024 < 32" using assms by simp
  have "(32768 + mag) div 1024 = 32 + mag div 1024"
    using div_mult_self1[of 1024 mag 32] by (simp add: add.commute)
  with k have "(32768 + mag) div 1024 mod 32 = mag div 1024" "mag div 1024 mod 32 = mag div 1024"
    by simp_all
  then show "half_exp (word_of_nat ((if s then 32768 else 0) + mag)) = mag div 1024"
    unfolding half_exp_def u by (cases s) simp_all
  show "half_frac (word_of_nat ((if s then 32768 else 0) + mag)) = mag mod 1024"
  proof -
    have "(32768 + mag) mod 1024 = mag mod 1024"
      using mod_mult_self1[of mag 32 1024] by (simp add: add.commute)
    then show ?thesis unfolding half_frac_def u by (cases s) simp_all
  qed
qed

lemma mag_value:
  assumes "1 \<le> E" "E \<le> 30" "n \<le> 2048" "E = 1 \<or> 1024 \<le> n"
  shows "(if ((E - 1) * 1024 + n) div 1024 = 0 then real (((E - 1) * 1024 + n) mod 1024) / 2 ^ 24
          else real (1024 + ((E - 1) * 1024 + n) mod 1024) * 2 ^ (((E - 1) * 1024 + n) div 1024) / 2 ^ 25)
         = real n * 2 ^ E / 2 ^ 25"
proof -
  let ?m = "(E - 1) * 1024 + n"
  consider (sub) "n < 1024" | (norm) "1024 \<le> n" "n < 2048" | (carry) "n = 2048"
    using assms(3) by linarith
  then show ?thesis
  proof cases
    case sub
    with assms have E: "E = 1" by simp
    with sub show ?thesis by simp
  next
    case norm
    obtain q where q: "n = 1024 + q" "q < 1024"
      using norm by (metis add_diff_inverse_nat less_diff_conv2 mult_2 not_less numeral_Bit0)
    have m: "?m = q + E * 1024" using assms(1) q by (cases E) simp_all
    have d: "?m div 1024 = E" unfolding m using q(2) by simp
    have r: "?m mod 1024 = q" unfolding m using q(2) by simp
    have "E \<noteq> 0" using assms(1) by simp
    then show ?thesis unfolding d r by (simp add: q)
  next
    case carry
    have m: "?m = (E + 1) * 1024" using assms(1) carry by (cases E) simp_all
    have d: "?m div 1024 = E + 1" unfolding m by simp
    have r: "?m mod 1024 = 0" unfolding m by simp
    show ?thesis unfolding d r using carry by simp
  qed
qed

lemma round_units:
  assumes "0 \<le> a"
  shows "bexp a < 30 \<Longrightarrow> nat (round_even (a * 2 ^ 25 / 2 ^ bexp a)) \<le> 2048"
    and "bexp a = 1 \<or> 1024 \<le> nat (round_even (a * 2 ^ 25 / 2 ^ bexp a))"
proof -
  let ?E = "bexp a"
  let ?x = "a * 2 ^ 25 / 2 ^ ?E"
  have x: "?x = a * 32768 * 1024 / 2 ^ ?E" by simp
  {
    assume "?E < 30"
    from bexp_upper[OF this] have "a * 32768 < 2 * 2 ^ ?E" by simp
    then have "?x < 2048" unfolding x by (simp add: field_simps)
    then have "?x \<le> of_int 2048" by simp
    from round_even_le[OF this] have "round_even ?x \<le> 2048" .
    then show "nat (round_even ?x) \<le> 2048" by linarith
  }
  show "?E = 1 \<or> 1024 \<le> nat (round_even ?x)"
  proof (cases "?E = 1")
    case False
    with bexp_range[of a] have "1 < ?E" by simp
    from bexp_lower[OF this] have "1024 \<le> ?x" unfolding x by (simp add: field_simps)
    then have "of_int 1024 \<le> ?x" by simp
    from round_even_ge[OF this] have "1024 \<le> round_even ?x" .
    then have "1024 \<le> nat (round_even ?x)" by linarith
    then show ?thesis ..
  qed simp
qed

lemma half_round_val:
  assumes "0 \<le> a" "a < 65520"
  shows "half_val (half_round s a) = Finite ((if s then - 1 else 1) * round_mag a)"
    and "is_finite (half_round s a)"
    and "half_sign (half_round s a) = s"
proof -
  let ?E = "bexp a"
  let ?n = "nat (round_even (a * 2 ^ 25 / 2 ^ ?E))"
  let ?m = "(?E - 1) * 1024 + ?n"
  note r = bexp_range[of a]
  have n30: "?n \<le> 2047" if "?E = 30"
  proof -
    have "a * 2 ^ 25 / 2 ^ 30 < of_int 2047 + 1 / 2" using assms(2) by simp
    from round_even_lt_half[OF this] have "round_even (a * 2 ^ 25 / 2 ^ 30) \<le> 2047" .
    then show ?thesis unfolding that by linarith
  qed
  have n: "?n \<le> 2048"
  proof (cases "?E = 30")
    case True
    from n30[OF this] show ?thesis by linarith
  next
    case False
    with r have "?E < 30" by linarith
    from round_units(1)[OF assms(1) this] show ?thesis .
  qed
  have m: "?m < 31744"
  proof (cases "?E = 30")
    case True
    from n30[OF this] show ?thesis unfolding True by linarith
  next
    case False
    with r have "?E - 1 \<le> 28" by linarith
    then have "(?E - 1) * 1024 \<le> 28 * 1024" by (rule mult_le_mono1)
    with n show ?thesis by linarith
  qed
  then have m': "?m < 32768" by linarith
  have "min 31744 ?m = ?m" using m by linarith
  then have hr: "half_round s a = word_of_nat ((if s then 32768 else 0) + ?m)"
    unfolding half_round_def Let_def by (simp only:)
  have "?m div 1024 < 31" using m by (simp add: div_less_iff_less_mult)
  then have e31: "?m div 1024 \<noteq> 31" by simp
  note f = half_fields[OF m', of s]
  note v = mag_value[OF r[THEN conjunct1] r[THEN conjunct2] n round_units(2)[OF assms(1)]]
  show "half_val (half_round s a) = Finite ((if s then - 1 else 1) * round_mag a)"
    unfolding hr half_val_def f round_mag_def v using e31 by (simp only: if_False)
  show "is_finite (half_round s a)"
    unfolding hr is_finite_def f using e31 .
  show "half_sign (half_round s a) = s"
    unfolding hr f ..
qed

lemma bexp_eq:
  assumes "1 \<le> E" "E \<le> 30" "E = 1 \<or> 2 ^ E \<le> a * 32768" "E = 30 \<or> a * 32768 < 2 ^ (E + 1)" "0 \<le> a"
  shows "bexp a = E"
proof -
  let ?m = "nat \<lfloor>a * 16384\<rfloor>"
  have lo: "E \<le> max 1 (floorlog 2 ?m)"
  proof (cases "E = 1")
    case True then show ?thesis by simp
  next
    case False
    with assms have "2 ^ E \<le> a * 32768" by simp
    have "(2::real) ^ E = 2 * 2 ^ (E - 1)" using assms(1) by (cases E) auto
    with \<open>2 ^ E \<le> a * 32768\<close> have "(2::real) ^ (E - 1) \<le> a * 16384" by simp
    then have "(2::int) ^ (E - 1) \<le> \<lfloor>a * 16384\<rfloor>" by (simp add: le_floor_iff)
    then have "(2::nat) ^ (E - 1) \<le> ?m" by (simp add: le_nat_iff)
    then have "E \<le> floorlog 2 ?m" by (intro floorlog_geI) auto
    then show ?thesis by simp
  qed
  have hi: "min 30 (floorlog 2 ?m) \<le> E"
  proof (cases "E = 30")
    case True then show ?thesis by simp
  next
    case False
    with assms have "a * 32768 < 2 ^ (E + 1)" by simp
    then have "a * 16384 < 2 ^ E" by simp
    then have "\<lfloor>a * 16384\<rfloor> < (2::int) ^ E" by (simp add: floor_less_iff)
    then have "?m < (2::nat) ^ E" using assms(5) by (simp add: nat_less_iff)
    then have "floorlog 2 ?m \<le> E" by (intro floorlog_leI) auto
    then show ?thesis by simp
  qed
  show ?thesis unfolding bexp_def using lo hi assms(1,2) by (simp add: max_def min_def split: if_splits)
qed


lemma round_mag_lower:
  assumes "0 \<le> a" "1 \<le> F" "j \<le> 2048" "real j * 2 ^ F / 2 ^ 25 \<le> a"
  shows "real j * 2 ^ F / 2 ^ 25 \<le> round_mag a"
proof (cases "bexp a \<le> F")
  case True
  let ?E = "bexp a"
  let ?k = "j * 2 ^ (F - ?E)"
  have p: "(2::real) ^ F = 2 ^ (F - ?E) * 2 ^ ?E"
    using True by (simp add: power_add[symmetric])
  have "real ?k * 2 ^ ?E / 2 ^ 25 \<le> a" using assms(4) by (simp add: p mult.assoc)
  then have "real ?k \<le> a * 2 ^ 25 / 2 ^ ?E" by (simp add: field_simps)
  then have "of_int (int ?k) \<le> a * 2 ^ 25 / 2 ^ ?E" by simp
  from round_even_ge[OF this] have "?k \<le> nat (round_even (a * 2 ^ 25 / 2 ^ ?E))" by linarith
  then have "real ?k \<le> real (nat (round_even (a * 2 ^ 25 / 2 ^ ?E)))" by (simp only: of_nat_le_iff)
  then have "real ?k * 2 ^ ?E / 2 ^ 25 \<le> round_mag a"
    unfolding round_mag_def by (simp add: divide_right_mono)
  then show ?thesis by (simp add: p mult.assoc)
next
  case False
  let ?E = "bexp a"
  from False have lt: "F < ?E" by simp
  with assms(2) have "1 < ?E" by linarith
  with round_units(2)[OF assms(1)] have n: "1024 \<le> nat (round_even (a * 2 ^ 25 / 2 ^ ?E))"
    by linarith
  have "(2::real) ^ (F + 1) \<le> 2 ^ ?E" using lt by (intro power_increasing) simp_all
  then have q: "2 * (2::real) ^ F \<le> 2 ^ ?E" by simp
  have "real j \<le> 2048" using assms(3) by simp
  then have "real j * 2 ^ F \<le> 2048 * 2 ^ F" by (simp add: mult_right_mono)
  also have "\<dots> \<le> 1024 * 2 ^ ?E" using q by simp
  also have "\<dots> \<le> real (nat (round_even (a * 2 ^ 25 / 2 ^ ?E))) * 2 ^ ?E"
    using n by (simp add: mult_right_mono)
  finally show ?thesis unfolding round_mag_def by (simp add: divide_right_mono)
qed

lemma round_mag_upper:
  assumes "0 \<le> a" "1 \<le> F" "j \<le> 2048" "a \<le> real j * 2 ^ F / 2 ^ 25"
  shows "round_mag a \<le> real j * 2 ^ F / 2 ^ 25"
proof (cases "bexp a \<le> F")
  case True
  let ?E = "bexp a"
  let ?k = "j * 2 ^ (F - ?E)"
  have p: "(2::real) ^ F = 2 ^ (F - ?E) * 2 ^ ?E"
    using True by (simp add: power_add[symmetric])
  have "a \<le> real ?k * 2 ^ ?E / 2 ^ 25" using assms(4) by (simp add: p mult.assoc)
  then have "a * 2 ^ 25 / 2 ^ ?E \<le> real ?k" by (simp add: field_simps)
  then have "a * 2 ^ 25 / 2 ^ ?E \<le> of_int (int ?k)" by simp
  from round_even_le[OF this] have "nat (round_even (a * 2 ^ 25 / 2 ^ ?E)) \<le> ?k" by linarith
  then have "real (nat (round_even (a * 2 ^ 25 / 2 ^ ?E))) \<le> real ?k" by (simp only: of_nat_le_iff)
  then have "round_mag a \<le> real ?k * 2 ^ ?E / 2 ^ 25"
    unfolding round_mag_def by (simp add: divide_right_mono)
  then show ?thesis by (simp add: p mult.assoc)
next
  case False
  let ?E = "bexp a"
  from False have lt: "F < ?E" by simp
  with assms(2) have "1 < ?E" by linarith
  from bexp_lower[OF this] have lo: "1024 * 2 ^ ?E / 2 ^ 25 \<le> a" by simp
  have "(2::real) ^ (F + 1) \<le> 2 ^ ?E" using lt by (intro power_increasing) simp_all
  then have q: "2 * (2::real) ^ F \<le> 2 ^ ?E" by simp
  have "real j \<le> 2048" using assms(3) by simp
  then have "real j * 2 ^ F \<le> 2048 * 2 ^ F" by (simp add: mult_right_mono)
  also have "\<dots> \<le> 1024 * 2 ^ ?E" using q by simp
  finally have g: "real j * 2 ^ F / 2 ^ 25 \<le> 1024 * 2 ^ ?E / 2 ^ 25" by (simp add: divide_right_mono)
  with lo assms(4) have a: "a \<le> 1024 * 2 ^ ?E / 2 ^ 25" and ga: "a \<le> real j * 2 ^ F / 2 ^ 25" by linarith+
  from a have "a * 2 ^ 25 / 2 ^ ?E \<le> 1024" by (simp add: field_simps)
  then have "a * 2 ^ 25 / 2 ^ ?E \<le> of_int 1024" by simp
  from round_even_le[OF this] have "nat (round_even (a * 2 ^ 25 / 2 ^ ?E)) \<le> 1024" by linarith
  then have "real (nat (round_even (a * 2 ^ 25 / 2 ^ ?E))) \<le> 1024" by linarith
  then have "round_mag a \<le> 1024 * 2 ^ ?E / 2 ^ 25"
    unfolding round_mag_def by (simp add: divide_right_mono)
  with lo ga show ?thesis by linarith
qed

lemma half_of_real_nonneg:
  assumes "0 \<le> x" "x < 65520"
  shows "half_val (half_of_real x) = Finite (round_mag x)"
    and "is_finite (half_of_real x)"
    and "\<not> half_sign (half_of_real x)"
proof -
  have s: "\<not> x < 0" "\<bar>x\<bar> = x" using assms(1) by simp_all
  note h = half_round_val[OF assms, of False]
  show "half_val (half_of_real x) = Finite (round_mag x)"
    using h(1) by (simp add: half_of_real_def s)
  show "is_finite (half_of_real x)" using h(2) by (simp add: half_of_real_def s)
  show "\<not> half_sign (half_of_real x)" using h(3) by (simp add: half_of_real_def s)
qed

lemma stored_in_closed_interval:
  assumes "1 \<le> x" "x < 10"
  shows "half_val (half_of_real x) = Finite (round_mag x)" "1 \<le> round_mag x" "round_mag x \<le> 10"
proof -
  have x0: "0 \<le> x" "x < 65520" using assms by simp_all
  show "half_val (half_of_real x) = Finite (round_mag x)" by (rule half_of_real_nonneg(1)[OF x0])
  have "real 1024 * 2 ^ 15 / 2 ^ 25 \<le> x" using assms(1) by simp
  from round_mag_lower[OF x0(1) _ _ this] show "1 \<le> round_mag x" by simp
  have "x \<le> real 1280 * 2 ^ 18 / 2 ^ 25" using assms(2) by simp
  from round_mag_upper[OF x0(1) _ _ this] show "round_mag x \<le> 10" by simp
qed


lemma round_mag_high: "round_mag (99991 / 10000) = 10"
proof -
  have a: "(0::real) \<le> 99991 / 10000" by simp
  have "real 1280 * 2 ^ 18 / 2 ^ 25 \<le> round_mag (99991 / 10000)"
  proof -
    have E: "bexp (99991 / 10000) = 18" by (rule bexp_eq) simp_all
    have "of_int 1280 - 1 / 2 < (99991 / 10000 :: real) * 2 ^ 25 / 2 ^ 18" by simp
    from round_even_gt_half[OF this] have "1280 \<le> nat (round_even ((99991 / 10000) * 2 ^ 25 / 2 ^ 18))"
      by linarith
    then have "real 1280 \<le> real (nat (round_even ((99991 / 10000) * 2 ^ 25 / 2 ^ 18)))"
      by (simp only: of_nat_le_iff)
    then show ?thesis unfolding round_mag_def E by (simp add: divide_right_mono)
  qed
  moreover have "round_mag (99991 / 10000) \<le> real 1280 * 2 ^ 18 / 2 ^ 25"
    by (rule round_mag_upper[OF a]) simp_all
  ultimately show ?thesis by simp
qed

section \<open>Shapes and indexing\<close>

lemma dirname_input_path: "dirname input_path = ''./AclNNInvocation/input/''"
  by (simp add: dirname_def input_path_def)

lemma dirname_golden_path: "dirname golden_path = ''./AclNNInvocation/output/''"
  by (simp add: dirname_def golden_path_def)

lemma paths_differ: "input_path \<noteq> golden_path"
  by (simp add: input_path_def golden_path_def)

lemma shape_uniform: "shape (uniform low high r c draw) = replicate r c"
  by (simp add: shape_def uniform_def comp_def map_replicate_const)

lemma shape_tmap: "shape (tmap f t) = shape t"
  by (simp add: shape_def tmap_def comp_def)

lemma shape_tmul: "shape a = shape b \<Longrightarrow> shape (tmul a b) = shape a"
proof (induction a arbitrary: b)
  case Nil
  then show ?case by (simp add: shape_def tmul_def)
next
  case (Cons r a)
  then obtain s b' where b: "b = s # b'" by (cases b) (auto simp: shape_def)
  with Cons.prems have "length r = length s" "shape a = shape b'" by (auto simp: shape_def)
  with Cons.IH[of b'] show ?case by (simp add: b shape_def tmul_def)
qed

lemma shape_mish: "shape (mish L t) = shape t"
  unfolding mish_def by (simp add: shape_tmul shape_tmap)

lemma shape_gen_input: "shape (gen_input draw) = replicate 8 2048"
  by (simp add: gen_input_def astype_float16_def shape_tmap shape_uniform)

lemma length_concat_shape: "length (concat t) = sum_list (shape t)"
  by (simp add: shape_def length_concat)

lemma length_half_bytes_concat: "length (concat (map half_bytes xs)) = 2 * length xs"
  by (induction xs) (simp_all add: half_bytes_def)

lemma length_tobytes: "length (tobytes t) = 2 * sum_list (shape t)"
proof -
  have "length (tobytes t) = 2 * length (concat t)"
    unfolding tobytes_def by (rule length_half_bytes_concat)
  then show ?thesis by (simp only: length_concat_shape)
qed

lemma nth_half_bytes_concat:
  "k < length xs \<Longrightarrow>
   concat (map half_bytes xs) ! (2 * k) = ucast (xs ! k) \<and>
   concat (map half_bytes xs) ! (2 * k + 1) = ucast (drop_bit 8 (xs ! k))"
proof (induction xs arbitrary: k)
  case Nil
  then show ?case by simp
next
  case (Cons x xs)
  show ?case
  proof (cases k)
    case 0
    then show ?thesis by (simp add: half_bytes_def)
  next
    case (Suc m)
    with Cons.prems have "m < length xs" by simp
    from Cons.IH[OF this] show ?thesis by (simp add: Suc half_bytes_def)
  qed
qed

lemma concat_uniform_nth:
  "k < r * c \<Longrightarrow> concat (map (\<lambda>i. map (f i) [0..<c]) [0..<r]) ! k = f (k div c) (k mod c)"
proof (induction r arbitrary: k)
  case 0
  then show ?case by simp
next
  case (Suc r)
  let ?h = "concat (map (\<lambda>i. map (f i) [0..<c]) [0..<r])"
  have len: "length ?h = r * c" by (simp add: length_concat comp_def sum_list_triv)
  show ?case
  proof (cases "k < r * c")
    case True
    with Suc.IH[OF True] len show ?thesis by (simp add: nth_append)
  next
    case False
    then have k: "r * c \<le> k" by simp
    from Suc.prems have kc: "k - r * c < c" using k by simp
    have "k div c = r" using k Suc.prems
      by (metis kc div_mult_self3 div_less add.commute add_0 le_add_diff_inverse less_nat_zero_code mult.commute not_gr_zero)
    moreover have "k mod c = k - r * c" using k kc
      by (metis le_add_diff_inverse mod_less mod_mult_self4 mult.commute)
    ultimately show ?thesis using False len kc by (simp add: nth_append)
  qed
qed

lemma nth_shape: "shape t = replicate r c \<Longrightarrow> i < r \<Longrightarrow> length t = r \<and> length (t ! i) = c"
  by (metis length_map length_replicate nth_map nth_replicate shape_def)

lemma tmap_nth: "i < length t \<Longrightarrow> j < length (t ! i) \<Longrightarrow> tmap f t ! i ! j = f (t ! i ! j)"
  by (simp add: tmap_def)

lemma tmul_nth:
  "i < length a \<Longrightarrow> i < length b \<Longrightarrow> j < length (a ! i) \<Longrightarrow> j < length (b ! i) \<Longrightarrow>
   tmul a b ! i ! j = mul16 (a ! i ! j) (b ! i ! j)"
  by (simp add: tmul_def)

lemma mish_nth:
  assumes "shape t = replicate r c" "i < r" "j < c"
  shows "mish L t ! i ! j =
    mul16 (t ! i ! j) (np_tanh L (np_log L (add16 (half_of_real 1) (np_exp L (t ! i ! j)))))"
proof -
  have t: "length t = r" "length (t ! i) = c" using nth_shape[OF assms(1,2)] by auto
  have s: "\<And>f. length (tmap f t) = r" by (simp add: tmap_def t)
  show ?thesis unfolding mish_def using assms t
    by (simp add: tmul_def tmap_def)
qed

lemma uniform_nth:
  "i < r \<Longrightarrow> j < c \<Longrightarrow> uniform low high r c draw ! i ! j = low + (high - low) * draw (i * c + j)"
  by (simp add: uniform_def)

lemma gen_input_nth:
  "i < 8 \<Longrightarrow> j < 2048 \<Longrightarrow> gen_input draw ! i ! j = half_of_real (1 + 9 * draw (i * 2048 + j))"
  by (simp add: gen_input_def astype_float16_def tmap_def uniform_def)

lemma concat_nth_shape:
  assumes "shape t = replicate r c" "k < r * c"
  shows "concat t ! k = t ! (k div c) ! (k mod c)"
proof -
  have len: "length t = r" using assms(1) by (metis length_map length_replicate shape_def)
  have row: "length (t ! i) = c" if "i < r" for i using nth_shape[OF assms(1) that] by simp
  have "t = map (\<lambda>i. map (\<lambda>j. t ! i ! j) [0..<c]) [0..<r]"
    by (rule nth_equalityI) (auto simp: len row intro: nth_equalityI)
  then have "concat t ! k = concat (map (\<lambda>i. map (\<lambda>j. t ! i ! j) [0..<c]) [0..<r]) ! k"
    by simp
  also have "\<dots> = t ! (k div c) ! (k mod c)" by (rule concat_uniform_nth[OF assms(2)])
  finally show ?thesis .
qed

lemma tobytes_nth:
  assumes "shape t = replicate r c" "k < r * c"
  shows "tobytes t ! (2 * k) = ucast (t ! (k div c) ! (k mod c)) \<and>
         tobytes t ! (2 * k + 1) = ucast (drop_bit 8 (t ! (k div c) ! (k mod c)))"
proof -
  have "length (concat t) = r * c"
    using assms(1) by (simp add: length_concat_shape sum_list_replicate)
  with assms(2) have "k < length (concat t)" by simp
  from nth_half_bytes_concat[OF this] show ?thesis
    by (simp add: tobytes_def concat_nth_shape[OF assms])
qed

lemma tofile_cases:
  "tofile t p fs =
     (if dirs fs (dirname p) = Some True then Inr (fs\<lparr>files := (files fs)(p \<mapsto> tobytes t)\<rparr>)
      else if dirs fs (dirname p) = None then Inl (FileNotFoundError p)
      else Inl (PermissionError p))"
  by (auto simp: tofile_def split: option.splits)

lemma gen_success:
  assumes "dirs fs (dirname input_path) = Some True" "dirs fs (dirname golden_path) = Some True"
  shows "gen_golden_data_simple L draw fs =
    (None, fs\<lparr>files := (files fs)(input_path \<mapsto> tobytes (gen_input draw),
                                   golden_path \<mapsto> tobytes (mish L (gen_input draw)))\<rparr>)"
  using assms by (simp add: gen_golden_data_simple_def Let_def tofile_cases)

lemma gen_fail_input:
  assumes "dirs fs (dirname input_path) \<noteq> Some True"
  shows "gen_golden_data_simple L draw fs =
    (Some (if dirs fs (dirname input_path) = None then FileNotFoundError input_path
           else PermissionError input_path), fs)"
  using assms by (simp add: gen_golden_data_simple_def Let_def tofile_cases)

lemma gen_fail_golden:
  assumes "dirs fs (dirname input_path) = Some True" "dirs fs (dirname golden_path) \<noteq> Some True"
  shows "gen_golden_data_simple L draw fs =
    (Some (if dirs fs (dirname golden_path) = None then FileNotFoundError golden_path
           else PermissionError golden_path),
     fs\<lparr>files := (files fs)(input_path \<mapsto> tobytes (gen_input draw))\<rparr>)"
  using assms by (simp add: gen_golden_data_simple_def Let_def tofile_cases)

section \<open>Bounds on the elementwise computation\<close>

lemma e_bounds: "27182 / 10000 < exp (1::real)" "exp (1::real) < 27184 / 10000"
proof -
  obtain t :: real where t: "\<bar>t\<bar> \<le> \<bar>1\<bar>"
    and e: "exp (1::real) = (\<Sum>m<8. (1 ^ m) / fact m) + (exp t / fact 8) * 1 ^ 8"
    using Maclaurin_exp_le[of 1 8] by blast
  have s: "(\<Sum>m<8. (1 ^ m) / fact m) = (685 / 252 :: real)"
    by (simp add: lessThan_nat_numeral lessThan_Suc fact_numeral)
  have f: "fact 8 = (40320 :: real)" by (simp add: fact_numeral)
  have "t \<le> 1" using t by simp
  then have "exp t \<le> exp 1" by simp
  also have "\<dots> \<le> 3" by (rule exp_le)
  finally have u: "exp t / 40320 \<le> 3 / 40320" by simp
  have l: "0 < exp t / 40320" by simp
  have e': "exp (1::real) = 685 / 252 + exp t / 40320" using e s f by simp
  have a: "(27182 / 10000 :: real) < 685 / 252" by simp
  have b: "(685 / 252 :: real) + 3 / 40320 < 27184 / 10000" by simp
  show "27182 / 10000 < exp (1::real)" using l a unfolding e' by linarith
  show "exp (1::real) < 27184 / 10000" using u b unfolding e' by linarith
qed

lemma exp_nat: "exp (real n) = exp 1 ^ n"
  using exp_of_nat_mult[of n "1::real"] by simp

lemma exp_10_le: "exp (10::real) \<le> 59049"
proof -
  have "exp (10::real) = exp 1 ^ 10" using exp_nat[of 10] by simp
  also have "\<dots> \<le> 3 ^ 10" by (intro power_mono exp_le) simp
  finally show ?thesis by simp
qed

lemma exp_15_ge: "59104 \<le> exp (15::real)"
proof -
  have "(5 / 2 :: real) \<le> exp 1" using e_bounds(1) by simp
  then have "(5 / 2 :: real) ^ 15 \<le> exp 1 ^ 15" by (intro power_mono) simp_all
  also have "\<dots> = exp (15::real)" using exp_nat[of 15] by simp
  finally have "(5 / 2 :: real) ^ 15 \<le> exp 15" .
  moreover have "(59104 :: real) \<le> (5 / 2) ^ 15" by (simp add: power_divide)
  ultimately show ?thesis by linarith
qed

lemma exp_minus_one_le: "exp (- 1 :: real) \<le> 1 / 2"
proof -
  have "2 \<le> exp (1::real)" using e_bounds(1) by simp
  then have "1 / exp (1::real) \<le> 1 / 2" by (simp add: field_simps)
  then show ?thesis by (simp add: exp_minus inverse_eq_divide)
qed

lemma tanh_half_ge: "1 / 3 \<le> tanh (1 / 2 :: real)"
proof -
  note q = exp_minus_one_le
  have p: "0 < exp (- 1 :: real)" by simp
  have "tanh (1 / 2 :: real) = (1 - exp (- 1)) / (1 + exp (- 1))"
    using tanh_real_altdef[of "1 / 2"] by simp
  moreover have "1 / 3 \<le> (1 - exp (- 1 :: real)) / (1 + exp (- 1))"
  proof -
    have "0 < 1 + exp (- 1 :: real)" using p by linarith
    then have "(1 / 3 \<le> (1 - exp (- 1 :: real)) / (1 + exp (- 1))) =
        (1 / 3 * (1 + exp (- 1)) \<le> 1 - exp (- 1 :: real))"
      by (rule pos_le_divide_eq)
    moreover have "1 / 3 * (1 + exp (- 1)) \<le> 1 - exp (- 1 :: real)" using q by (simp add: field_simps)
    ultimately show ?thesis by blast
  qed
  ultimately show ?thesis by simp
qed

lemma is_finite_val: "half_val h = Finite v \<Longrightarrow> is_finite h"
  by (auto simp: half_val_def is_finite_def split: if_splits)

lemma half_val_pos_sign: "half_val h = Finite v \<Longrightarrow> 0 < v \<Longrightarrow> \<not> half_sign h"
proof
  assume v: "half_val h = Finite v" and p: "0 < v" and s: "half_sign h"
  from v s have "v = - 1 * (if half_exp h = 0 then real (half_frac h) / 2 ^ 24
              else real (1024 + half_frac h) * 2 ^ half_exp h / 2 ^ 25)"
    by (auto simp: half_val_def split: if_splits)
  moreover have "0 \<le> (if half_exp h = 0 then real (half_frac h) / 2 ^ 24
              else real (1024 + half_frac h) * 2 ^ half_exp h / 2 ^ 25)"
    by simp
  ultimately show False using p by linarith
qed

lemma close_toD:
  assumes "close_to v y" "0 \<le> y"
  obtains r where "v = Finite r" "y * (8191 / 8192) \<le> r" "r \<le> y * (8193 / 8192)"
proof -
  from assms(1) obtain r where r: "v = Finite r" "\<bar>r - y\<bar> \<le> \<bar>y\<bar> / 8192"
    by (cases v) (auto simp: close_to_def)
  from r(2) assms(2) have "y * (8191 / 8192) \<le> r" "r \<le> y * (8193 / 8192)" by linarith+
  with r(1) that show ?thesis by blast
qed

lemma half_of_fval_val:
  assumes "0 \<le> r" "r < 65520"
  shows "half_val (half_of_fval (Finite r)) = Finite (round_mag r)"
  using half_of_real_nonneg(1)[OF assms] by (simp add: half_of_fval_def)

lemma round_mag_lower_half:
  assumes "bexp a = F" "(real j - 1 / 2) * 2 ^ F / 2 ^ 25 < a"
  shows "real j * 2 ^ F / 2 ^ 25 \<le> round_mag a"
proof -
  have "real j - 1 / 2 < a * 2 ^ 25 / 2 ^ F" using assms(2) by (simp add: field_simps)
  then have "of_int (int j) - 1 / 2 < a * 2 ^ 25 / 2 ^ F" by simp
  from round_even_gt_half[OF this] have "j \<le> nat (round_even (a * 2 ^ 25 / 2 ^ F))" by linarith
  then have "real j \<le> real (nat (round_even (a * 2 ^ 25 / 2 ^ F)))" by (simp only: of_nat_le_iff)
  then show ?thesis unfolding round_mag_def assms(1) by (simp add: divide_right_mono)
qed

lemma round_mag_upper_half:
  assumes "bexp a = F" "a < (real j + 1 / 2) * 2 ^ F / 2 ^ 25"
  shows "round_mag a \<le> real j * 2 ^ F / 2 ^ 25"
proof -
  have "a * 2 ^ 25 / 2 ^ F < real j + 1 / 2" using assms(2) by (simp add: field_simps)
  then have "a * 2 ^ 25 / 2 ^ F < of_int (int j) + 1 / 2" by simp
  from round_even_lt_half[OF this] have "nat (round_even (a * 2 ^ 25 / 2 ^ F)) \<le> j" by linarith
  then have "real (nat (round_even (a * 2 ^ 25 / 2 ^ F))) \<le> real j" by (simp only: of_nat_le_iff)
  then show ?thesis unfolding round_mag_def assms(1) by (simp add: divide_right_mono)
qed

lemma half_val_one: "half_val (half_of_real 1) = Finite 1"
proof -
  have "real 1024 * 2 ^ 15 / 2 ^ 25 \<le> round_mag 1" by (rule round_mag_lower) simp_all
  moreover have "round_mag 1 \<le> real 1024 * 2 ^ 15 / 2 ^ 25" by (rule round_mag_upper) simp_all
  ultimately have "round_mag 1 = 1" by simp
  then show ?thesis using half_of_real_nonneg(1)[of 1] by simp
qed

lemma accurate_exact_lib: "accurate exact_lib"
  by (simp add: accurate_def exact_lib_def close_to_def)

lemma exp_step:
  assumes "accurate L" "half_val x = Finite v" "1 \<le> v" "v \<le> 10"
  shows "\<exists>w. half_val (np_exp L x) = Finite w \<and> 87 / 32 \<le> w \<and> w \<le> 59072"
proof -
  have c: "close_to (exp_f32 L (Finite v)) (exp v)"
    using assms(1,3,4) by (simp add: accurate_def)
  have "exp 1 \<le> exp v" using assms(3) by simp
  with e_bounds(1) have lo: "27182 / 10000 < exp v" by linarith
  have "exp v \<le> exp 10" using assms(4) by simp
  with exp_10_le have hi: "exp v \<le> 59049" by linarith
  from c obtain r where r: "exp_f32 L (Finite v) = Finite r"
      "exp v * (8191 / 8192) \<le> r" "r \<le> exp v * (8193 / 8192)"
    by (rule close_toD) simp
  have rl: "2783 / 1024 < r" using r(2) lo by linarith
  have ru: "r \<le> 59072" using r(3) hi by linarith
  have r0: "0 \<le> r" "r < 65520" using rl ru by linarith+
  have v: "half_val (np_exp L x) = Finite (round_mag r)"
    unfolding np_exp_def assms(2) r(1) by (rule half_of_fval_val[OF r0])
  have "real 1392 * 2 ^ 16 / 2 ^ 25 \<le> round_mag r"
  proof (cases "87 / 32 \<le> r")
    case True
    show ?thesis by (rule round_mag_lower[OF r0(1)]) (use True in simp_all)
  next
    case False
    have E: "bexp r = 16" by (rule bexp_eq) (use rl False in simp_all)
    show ?thesis by (rule round_mag_lower_half[OF E]) (use rl in simp)
  qed
  moreover have "round_mag r \<le> real 1846 * 2 ^ 30 / 2 ^ 25"
    by (rule round_mag_upper[OF r0(1)]) (use ru in simp_all)
  ultimately show ?thesis using v by simp
qed

lemma add_step:
  assumes "half_val e = Finite w" "87 / 32 \<le> w" "w \<le> 59072"
  shows "\<exists>u. half_val (add16 (half_of_real 1) e) = Finite u \<and> 119 / 32 \<le> u \<and> u \<le> 59104"
proof -
  have p: "0 \<le> 1 + w" "1 + w < 65520" "1 + w \<noteq> 0" "\<not> 1 + w < 0" "\<bar>1 + w\<bar> = 1 + w"
    using assms(2,3) by linarith+
  have "add16 (half_of_real 1) e = half_round False (1 + w)"
    by (simp add: add16_def half_val_one assms(1) p)
  then have v: "half_val (add16 (half_of_real 1) e) = Finite (round_mag (1 + w))"
    using half_round_val(1)[OF p(1,2), of False] by simp
  have "real 1904 * 2 ^ 16 / 2 ^ 25 \<le> round_mag (1 + w)"
    by (rule round_mag_lower[OF p(1)]) (use assms(2) in simp_all)
  moreover have "round_mag (1 + w) \<le> real 1847 * 2 ^ 30 / 2 ^ 25"
    by (rule round_mag_upper[OF p(1)]) (use assms(3) in simp_all)
  ultimately show ?thesis using v by simp
qed

lemma log_step:
  assumes "accurate L" "half_val s = Finite u" "119 / 32 \<le> u" "u \<le> 59104"
  shows "\<exists>y. half_val (np_log L s) = Finite y \<and> 1 / 2 \<le> y \<and> y \<le> 16"
proof -
  have c: "close_to (log_f32 L (Finite u)) (ln u)"
    using assms(1,3,4) by (simp add: accurate_def)
  have u0: "0 < u" using assms(3) by linarith
  have "exp 1 \<le> u" using exp_le assms(3) by linarith
  then have lo: "1 \<le> ln u" using u0 by (simp add: ln_ge_iff)
  have "u \<le> exp 15" using exp_15_ge assms(4) by linarith
  then have "ln u \<le> ln (exp (15::real))" using u0 by (simp only: ln_le_cancel_iff exp_gt_zero)
  then have hi: "ln u \<le> 15" by simp
  from c obtain r where r: "log_f32 L (Finite u) = Finite r"
      "ln u * (8191 / 8192) \<le> r" "r \<le> ln u * (8193 / 8192)"
    by (rule close_toD) (use lo in simp)
  have rl: "1 / 2 \<le> r" using r(2) lo by linarith
  have ru: "r \<le> 16" using r(3) hi by linarith
  have r0: "0 \<le> r" "r < 65520" using rl ru by linarith+
  have v: "half_val (np_log L s) = Finite (round_mag r)"
    unfolding np_log_def assms(2) r(1) by (rule half_of_fval_val[OF r0])
  have "real 1024 * 2 ^ 14 / 2 ^ 25 \<le> round_mag r"
    by (rule round_mag_lower[OF r0(1)]) (use rl in simp_all)
  moreover have "round_mag r \<le> real 1024 * 2 ^ 19 / 2 ^ 25"
    by (rule round_mag_upper[OF r0(1)]) (use ru in simp_all)
  ultimately show ?thesis using v by simp
qed

lemma round_mag_le_one:
  assumes "0 \<le> r" "r < 8193 / 8192"
  shows "round_mag r \<le> 1"
proof (cases "r \<le> 1")
  case True
  have "round_mag r \<le> real 1024 * 2 ^ 15 / 2 ^ 25"
    by (rule round_mag_upper[OF assms(1)]) (use True in simp_all)
  then show ?thesis by simp
next
  case False
  have E: "bexp r = 15" by (rule bexp_eq) (use False assms in simp_all)
  have "round_mag r \<le> real 1024 * 2 ^ 15 / 2 ^ 25"
    by (rule round_mag_upper_half[OF E]) (use assms(2) in simp)
  then show ?thesis by simp
qed

lemma tanh_step:
  assumes "accurate L" "half_val l = Finite y" "1 / 2 \<le> y" "y \<le> 16"
  shows "\<exists>z. half_val (np_tanh L l) = Finite z \<and> 1 / 4 \<le> z \<and> z \<le> 1"
proof -
  have c: "close_to (tanh_f32 L (Finite y)) (tanh y)"
    using assms(1,3,4) by (simp add: accurate_def)
  have "tanh (1 / 2) \<le> tanh y" using assms(3) by simp
  with tanh_half_ge have lo: "1 / 3 \<le> tanh y" by linarith
  have hi: "tanh y < 1" by (rule tanh_real_lt_1)
  from c obtain r where r: "tanh_f32 L (Finite y) = Finite r"
      "tanh y * (8191 / 8192) \<le> r" "r \<le> tanh y * (8193 / 8192)"
    by (rule close_toD) (use assms(3) in simp)
  have rl: "1 / 4 \<le> r" using r(2) lo by linarith
  have ru: "r < 8193 / 8192" using r(3) hi by linarith
  have r0: "0 \<le> r" "r < 65520" using rl ru by linarith+
  have v: "half_val (np_tanh L l) = Finite (round_mag r)"
    unfolding np_tanh_def assms(2) r(1) by (rule half_of_fval_val[OF r0])
  have "real 1024 * 2 ^ 13 / 2 ^ 25 \<le> round_mag r"
    by (rule round_mag_lower[OF r0(1)]) (use rl in simp_all)
  moreover note round_mag_le_one[OF r0(1) ru]
  ultimately show ?thesis using v by simp
qed

lemma mul_step:
  assumes "half_val x = Finite v" "1 \<le> v" "v \<le> 10" "half_val t = Finite z" "1 / 4 \<le> z" "z \<le> 1"
  shows "\<exists>g. half_val (mul16 x t) = Finite g \<and> 1 / 4 \<le> g \<and> g \<le> 10"
proof -
  have sx: "\<not> half_sign x" by (rule half_val_pos_sign[OF assms(1)]) (use assms(2) in linarith)
  have st: "\<not> half_sign t" by (rule half_val_pos_sign[OF assms(4)]) (use assms(5) in linarith)
  have z0: "0 \<le> z" "0 \<le> v" using assms(2,5) by linarith+
  have "1 / 4 * 1 \<le> z * v" using assms(2,5) by (intro mult_mono) simp_all
  then have pl: "1 / 4 \<le> v * z" by (simp add: mult.commute)
  have "v * z \<le> 10 * 1" using assms(3,6) z0 by (intro mult_mono) simp_all
  then have pu: "v * z \<le> 10" by simp
  have p: "0 \<le> v * z" "v * z < 65520" "\<bar>v * z\<bar> = v * z" using pl pu by linarith+
  have "mul16 x t = half_round False (v * z)"
    by (simp add: mul16_def Let_def assms(1,4) sx st p(3))
  then have val: "half_val (mul16 x t) = Finite (round_mag (v * z))"
    using half_round_val(1)[OF p(1,2), of False] by simp
  have "real 1024 * 2 ^ 13 / 2 ^ 25 \<le> round_mag (v * z)"
    by (rule round_mag_lower[OF p(1)]) (use pl in simp_all)
  moreover have "round_mag (v * z) \<le> real 1280 * 2 ^ 18 / 2 ^ 25"
    by (rule round_mag_upper[OF p(1)]) (use pu in simp_all)
  ultimately show ?thesis using val by simp
qed

lemma half_real_val: "half_val h = Finite v \<Longrightarrow> half_real h = v"
  by (simp add: half_real_def)

lemma stored_elem:
  assumes "unit_draws 16384 draw" "i < 8" "j < 2048"
  shows "\<exists>v. half_val (gen_input draw ! i ! j) = Finite v \<and> 1 \<le> v \<and> v \<le> 10"
proof -
  from assms(2,3) have "i * 2048 + j < 16384" by simp
  with assms(1) have "0 \<le> draw (i * 2048 + j)" "draw (i * 2048 + j) < 1"
    by (simp_all add: unit_draws_def)
  then have d: "1 \<le> 1 + 9 * draw (i * 2048 + j)" "1 + 9 * draw (i * 2048 + j) < 10"
    by linarith+
  from stored_in_closed_interval[OF d] show ?thesis
    by (simp add: gen_input_nth[OF assms(2,3)])
qed

lemma stored_high: "half_val (gen_input high_draw ! 0 ! 0) = Finite 10"
proof -
  have g: "gen_input high_draw ! 0 ! 0 = half_of_real (99991 / 10000)"
    using gen_input_nth[of 0 0 high_draw] by (simp add: high_draw_def)
  have "half_val (half_of_real (99991 / 10000)) = Finite (round_mag (99991 / 10000))"
    by (rule half_of_real_nonneg(1)) simp_all
  then show ?thesis by (simp only: g round_mag_high)
qed

lemma unit_draws_high_draw: "unit_draws 16384 high_draw"
  by (simp add: unit_draws_def high_draw_def)

lemma unit_draws_sample_draw: "unit_draws 16384 sample_draw"
  unfolding unit_draws_def sample_draw_def
proof (intro allI impI)
  fix k :: nat
  have "k mod 9 < 9" by simp
  then have "real (k mod 9) < 9" by (simp only: of_nat_less_iff[of _ 9, simplified])
  then show "0 \<le> real (k mod 9) / 9 \<and> real (k mod 9) / 9 < 1" by simp
qed

lemma element_chain:
  assumes "accurate L" "half_val x = Finite v" "1 \<le> v" "v \<le> 10"
  shows "\<exists>w u y z g.
    half_val (np_exp L x) = Finite w \<and> 87 / 32 \<le> w \<and> w \<le> 59072 \<and>
    half_val (add16 (half_of_real 1) (np_exp L x)) = Finite u \<and> 119 / 32 \<le> u \<and> u \<le> 59104 \<and>
    half_val (np_log L (add16 (half_of_real 1) (np_exp L x))) = Finite y \<and> 1 / 2 \<le> y \<and> y \<le> 16 \<and>
    half_val (np_tanh L (np_log L (add16 (half_of_real 1) (np_exp L x)))) = Finite z \<and>
      1 / 4 \<le> z \<and> z \<le> 1 \<and>
    half_val (mul16 x (np_tanh L (np_log L (add16 (half_of_real 1) (np_exp L x))))) = Finite g \<and>
      1 / 4 \<le> g \<and> g \<le> 10"
proof -
  from exp_step[OF assms] obtain w where
    w: "half_val (np_exp L x) = Finite w" "87 / 32 \<le> w" "w \<le> 59072" by blast
  from add_step[OF w] obtain u where
    u: "half_val (add16 (half_of_real 1) (np_exp L x)) = Finite u" "119 / 32 \<le> u" "u \<le> 59104"
    by blast
  from log_step[OF assms(1) u] obtain y where
    y: "half_val (np_log L (add16 (half_of_real 1) (np_exp L x))) = Finite y" "1 / 2 \<le> y" "y \<le> 16"
    by blast
  from tanh_step[OF assms(1) y] obtain z where
    z: "half_val (np_tanh L (np_log L (add16 (half_of_real 1) (np_exp L x)))) = Finite z"
      "1 / 4 \<le> z" "z \<le> 1"
    by blast
  from mul_step[OF assms(2-4) z] obtain g where
    g: "half_val (mul16 x (np_tanh L (np_log L (add16 (half_of_real 1) (np_exp L x))))) = Finite g"
      "1 / 4 \<le> g" "g \<le> 10"
    by blast
  from w u y z g show ?thesis by blast
qed

lemma exp_step_high:
  assumes "accurate L" "half_val x = Finite 10"
  shows "\<exists>w. half_val (np_exp L x) = Finite w \<and> 8192 \<le> w \<and> w \<le> 59072"
proof -
  have c: "close_to (exp_f32 L (Finite 10)) (exp 10)"
    using assms(1) by (simp add: accurate_def)
  have "(5 / 2 :: real) \<le> exp 1" using e_bounds(1) by simp
  then have "(5 / 2 :: real) ^ 10 \<le> exp 1 ^ 10" by (intro power_mono) simp_all
  also have "\<dots> = exp (10::real)" using exp_nat[of 10] by simp
  finally have "(5 / 2 :: real) ^ 10 \<le> exp 10" .
  moreover have "(9536 :: real) \<le> (5 / 2) ^ 10" by (simp add: power_divide)
  ultimately have lo: "9536 \<le> exp (10::real)" by linarith
  note hi = exp_10_le
  from c obtain r where r: "exp_f32 L (Finite 10) = Finite r"
      "exp 10 * (8191 / 8192) \<le> r" "r \<le> exp 10 * (8193 / 8192)"
    by (rule close_toD) simp
  have rl: "8192 \<le> r" using r(2) lo by linarith
  have ru: "r \<le> 59072" using r(3) hi by linarith
  have r0: "0 \<le> r" "r < 65520" using rl ru by linarith+
  have v: "half_val (np_exp L x) = Finite (round_mag r)"
    unfolding np_exp_def assms(2) r(1) by (rule half_of_fval_val[OF r0])
  have "real 1024 * 2 ^ 28 / 2 ^ 25 \<le> round_mag r"
    by (rule round_mag_lower[OF r0(1)]) (use rl in simp_all)
  moreover have "round_mag r \<le> real 1846 * 2 ^ 30 / 2 ^ 25"
    by (rule round_mag_upper[OF r0(1)]) (use ru in simp_all)
  ultimately show ?thesis using v by simp
qed

lemma add_step_high:
  assumes "half_val e = Finite w" "8192 \<le> w" "w \<le> 59072"
  shows "\<exists>u. half_val (add16 (half_of_real 1) e) = Finite u \<and> 8192 \<le> u \<and> u \<le> 59104"
proof -
  have p: "0 \<le> 1 + w" "1 + w < 65520" "1 + w \<noteq> 0" "\<not> 1 + w < 0" "\<bar>1 + w\<bar> = 1 + w"
    using assms(2,3) by linarith+
  have "add16 (half_of_real 1) e = half_round False (1 + w)"
    by (simp add: add16_def half_val_one assms(1) p)
  then have v: "half_val (add16 (half_of_real 1) e) = Finite (round_mag (1 + w))"
    using half_round_val(1)[OF p(1,2), of False] by simp
  have "real 1024 * 2 ^ 28 / 2 ^ 25 \<le> round_mag (1 + w)"
    by (rule round_mag_lower[OF p(1)]) (use assms(2) in simp_all)
  moreover have "round_mag (1 + w) \<le> real 1847 * 2 ^ 30 / 2 ^ 25"
    by (rule round_mag_upper[OF p(1)]) (use assms(3) in simp_all)
  ultimately show ?thesis using v by simp
qed

lemma log_step_high:
  assumes "accurate L" "half_val s = Finite u" "8192 \<le> u" "u \<le> 59104"
  shows "\<exists>y. half_val (np_log L s) = Finite y \<and> 15 / 2 \<le> y \<and> y \<le> 16"
proof -
  have c: "close_to (log_f32 L (Finite u)) (ln u)"
    using assms(1,3,4) by (simp add: accurate_def)
  have u0: "0 < u" using assms(3) by linarith
  have "exp (8::real) = exp 1 ^ 8" using exp_nat[of 8] by simp
  also have "\<dots> \<le> 3 ^ 8" by (intro power_mono exp_le) simp
  finally have "exp (8::real) \<le> u" using assms(3) by simp
  then have lo: "8 \<le> ln u" using u0 by (simp add: ln_ge_iff)
  have "u \<le> exp 15" using exp_15_ge assms(4) by linarith
  then have "ln u \<le> ln (exp (15::real))" using u0 by (simp only: ln_le_cancel_iff exp_gt_zero)
  then have hi: "ln u \<le> 15" by simp
  from c obtain r where r: "log_f32 L (Finite u) = Finite r"
      "ln u * (8191 / 8192) \<le> r" "r \<le> ln u * (8193 / 8192)"
    by (rule close_toD) (use lo in simp)
  have rl: "15 / 2 \<le> r" using r(2) lo by linarith
  have ru: "r \<le> 16" using r(3) hi by linarith
  have r0: "0 \<le> r" "r < 65520" using rl ru by linarith+
  have v: "half_val (np_log L s) = Finite (round_mag r)"
    unfolding np_log_def assms(2) r(1) by (rule half_of_fval_val[OF r0])
  have "real 1920 * 2 ^ 17 / 2 ^ 25 \<le> round_mag r"
    by (rule round_mag_lower[OF r0(1)]) (use rl in simp_all)
  moreover have "round_mag r \<le> real 1024 * 2 ^ 19 / 2 ^ 25"
    by (rule round_mag_upper[OF r0(1)]) (use ru in simp_all)
  ultimately show ?thesis using v by simp
qed

lemma tanh_high_ge: "1 - 2 / 59104 \<le> tanh (15 / 2 :: real)"
proof -
  have "1 / exp (15::real) \<le> 1 / 59104" using exp_15_ge by (simp add: field_simps)
  then have q: "exp (- 15 :: real) \<le> 1 / 59104" by (simp add: exp_minus inverse_eq_divide)
  have p: "0 < exp (- 15 :: real)" by simp
  have t: "tanh (15 / 2 :: real) = (1 - exp (- 15)) / (1 + exp (- 15))"
    using tanh_real_altdef[of "15 / 2"] by simp
  have "0 < 1 + exp (- 15 :: real)" using p by linarith
  then have "(1 - 2 * exp (- 15 :: real) \<le> (1 - exp (- 15)) / (1 + exp (- 15))) =
      ((1 - 2 * exp (- 15)) * (1 + exp (- 15)) \<le> 1 - exp (- 15 :: real))"
    by (rule pos_le_divide_eq)
  moreover have "(1 - 2 * exp (- 15)) * (1 + exp (- 15)) \<le> 1 - exp (- 15 :: real)"
  proof -
    have "(1 - 2 * exp (- 15)) * (1 + exp (- 15)) =
        1 - exp (- 15 :: real) - 2 * (exp (- 15) * exp (- 15))"
      by (simp add: algebra_simps)
    moreover have "0 \<le> exp (- 15 :: real) * exp (- 15)" by simp
    ultimately show ?thesis by linarith
  qed
  ultimately have "1 - 2 * exp (- 15 :: real) \<le> tanh (15 / 2)" unfolding t by blast
  with q show ?thesis by linarith
qed

lemma tanh_step_high:
  assumes "accurate L" "half_val l = Finite y" "15 / 2 \<le> y" "y \<le> 16"
  shows "half_val (np_tanh L l) = Finite 1"
proof -
  have c: "close_to (tanh_f32 L (Finite y)) (tanh y)"
    using assms(1,3,4) by (simp add: accurate_def)
  have "tanh (15 / 2) \<le> tanh y" using assms(3) by simp
  with tanh_high_ge have lo: "1 - 2 / 59104 \<le> tanh y" by linarith
  have hi: "tanh y < 1" by (rule tanh_real_lt_1)
  from c obtain r where r: "tanh_f32 L (Finite y) = Finite r"
      "tanh y * (8191 / 8192) \<le> r" "r \<le> tanh y * (8193 / 8192)"
    by (rule close_toD) (use assms(3) in simp)
  have rl: "4095 / 4096 < r" using r(2) lo by linarith
  have ru: "r < 8193 / 8192" using r(3) hi by linarith
  have r0: "0 \<le> r" "r < 65520" using rl ru by linarith+
  have v: "half_val (np_tanh L l) = Finite (round_mag r)"
    unfolding np_tanh_def assms(2) r(1) by (rule half_of_fval_val[OF r0])
  have "1 \<le> round_mag r"
  proof (cases "1 \<le> r")
    case True
    have "real 1024 * 2 ^ 15 / 2 ^ 25 \<le> round_mag r"
      by (rule round_mag_lower[OF r0(1)]) (use True in simp_all)
    then show ?thesis by simp
  next
    case False
    have E: "bexp r = 14" by (rule bexp_eq) (use rl False in simp_all)
    have "real 2048 * 2 ^ 14 / 2 ^ 25 \<le> round_mag r"
      by (rule round_mag_lower_half[OF E]) (use rl in simp)
    then show ?thesis by simp
  qed
  with round_mag_le_one[OF r0(1) ru] have "round_mag r = 1" by linarith
  with v show ?thesis by simp
qed

lemma tanh_saturates:
  assumes "accurate L" "half_val x = Finite 10"
  shows "half_val (np_tanh L (np_log L (add16 (half_of_real 1) (np_exp L x)))) = Finite 1"
proof -
  from exp_step_high[OF assms] obtain w where
    w: "half_val (np_exp L x) = Finite w" "8192 \<le> w" "w \<le> 59072" by blast
  from add_step_high[OF w] obtain u where
    u: "half_val (add16 (half_of_real 1) (np_exp L x)) = Finite u" "8192 \<le> u" "u \<le> 59104"
    by blast
  from log_step_high[OF assms(1) u] obtain y where
    y: "half_val (np_log L (add16 (half_of_real 1) (np_exp L x))) = Finite y" "15 / 2 \<le> y" "y \<le> 16"
    by blast
  from tanh_step_high[OF assms(1) y] show ?thesis .
qed

section \<open>The claims\<close>



text \<open>
  C2. After a run that ends without an exception, the file at the input path holds the bytes
  of the input tensor and the file at the golden path those of the golden tensor, no other
  file has changed, each of the two holds 32768 bytes, and bytes \<open>2k\<close> and \<open>2k + 1\<close> are the two
  bytes of element \<open>k\<close> in row-major order, so nothing precedes or separates the elements.
\<close>

theorem files_after_success:
  "fst (gen_golden_data_simple L draw fs) = None \<Longrightarrow>
   files (snd (gen_golden_data_simple L draw fs)) input_path = Some (tobytes (gen_input draw)) \<and>
   files (snd (gen_golden_data_simple L draw fs)) golden_path =
     Some (tobytes (mish L (gen_input draw))) \<and>
   (\<forall>p. p \<noteq> input_path \<and> p \<noteq> golden_path \<longrightarrow>
      files (snd (gen_golden_data_simple L draw fs)) p = files fs p) \<and>
   length (tobytes (gen_input draw)) = 32768 \<and>
   length (tobytes (mish L (gen_input draw))) = 32768 \<and>
   (\<forall>k<16384.
      tobytes (gen_input draw) ! (2 * k) = ucast (gen_input draw ! (k div 2048) ! (k mod 2048)) \<and>
      tobytes (gen_input draw) ! (2 * k + 1) =
        ucast (drop_bit 8 (gen_input draw ! (k div 2048) ! (k mod 2048))) \<and>
      tobytes (mish L (gen_input draw)) ! (2 * k) =
        ucast (mish L (gen_input draw) ! (k div 2048) ! (k mod 2048)) \<and>
      tobytes (mish L (gen_input draw)) ! (2 * k + 1) =
        ucast (drop_bit 8 (mish L (gen_input draw) ! (k div 2048) ! (k mod 2048))))"
proof -
  assume ok: "fst (gen_golden_data_simple L draw fs) = None"
  have d1: "dirs fs (dirname input_path) = Some True"
    using ok gen_fail_input[of fs L draw] by (cases "dirs fs (dirname input_path) = Some True") auto
  have d2: "dirs fs (dirname golden_path) = Some True"
    using ok gen_fail_golden[OF d1, of L draw]
    by (cases "dirs fs (dirname golden_path) = Some True") auto
  note run = gen_success[OF d1 d2, of L draw]
  have sg: "shape (mish L (gen_input draw)) = replicate 8 2048"
    by (simp only: shape_mish shape_gen_input)
  have f1: "files (snd (gen_golden_data_simple L draw fs)) input_path =
      Some (tobytes (gen_input draw))"
    by (simp add: run paths_differ)
  have f2: "files (snd (gen_golden_data_simple L draw fs)) golden_path =
      Some (tobytes (mish L (gen_input draw)))"
    by (simp add: run)
  have f3: "\<forall>p. p \<noteq> input_path \<and> p \<noteq> golden_path \<longrightarrow>
      files (snd (gen_golden_data_simple L draw fs)) p = files fs p"
    by (simp add: run)
  have l1: "length (tobytes (gen_input draw)) = 32768"
    by (simp add: length_tobytes shape_gen_input sum_list_replicate)
  have l2: "length (tobytes (mish L (gen_input draw))) = 32768"
    by (simp add: length_tobytes sg sum_list_replicate)
  have b: "\<forall>k<16384.
      tobytes (gen_input draw) ! (2 * k) = ucast (gen_input draw ! (k div 2048) ! (k mod 2048)) \<and>
      tobytes (gen_input draw) ! (2 * k + 1) =
        ucast (drop_bit 8 (gen_input draw ! (k div 2048) ! (k mod 2048))) \<and>
      tobytes (mish L (gen_input draw)) ! (2 * k) =
        ucast (mish L (gen_input draw) ! (k div 2048) ! (k mod 2048)) \<and>
      tobytes (mish L (gen_input draw)) ! (2 * k + 1) =
        ucast (drop_bit 8 (mish L (gen_input draw) ! (k div 2048) ! (k mod 2048)))"
  proof (intro allI impI)
    fix k :: nat
    assume "k < 16384"
    then have k: "k < 8 * 2048" by simp
    from tobytes_nth[OF shape_gen_input k] tobytes_nth[OF sg k]
    show "tobytes (gen_input draw) ! (2 * k) = ucast (gen_input draw ! (k div 2048) ! (k mod 2048)) \<and>
      tobytes (gen_input draw) ! (2 * k + 1) =
        ucast (drop_bit 8 (gen_input draw ! (k div 2048) ! (k mod 2048))) \<and>
      tobytes (mish L (gen_input draw)) ! (2 * k) =
        ucast (mish L (gen_input draw) ! (k div 2048) ! (k mod 2048)) \<and>
      tobytes (mish L (gen_input draw)) ! (2 * k + 1) =
        ucast (drop_bit 8 (mish L (gen_input draw) ! (k div 2048) ! (k mod 2048)))"
      by blast
  qed
  from f1 f2 f3 l1 l2 b show ?thesis by blast
qed

theorem files_after_success_witness:
  "fst (gen_golden_data_simple exact_lib sample_draw fs_ready) = None \<and>
   files (snd (gen_golden_data_simple exact_lib sample_draw fs_ready)) input_path =
     Some (tobytes (gen_input sample_draw)) \<and>
   files (snd (gen_golden_data_simple exact_lib sample_draw fs_ready)) golden_path =
     Some (tobytes (mish exact_lib (gen_input sample_draw))) \<and>
   length (tobytes (gen_input sample_draw)) = 32768 \<and>
   length (tobytes (mish exact_lib (gen_input sample_draw))) = 32768"
proof -
  have ok: "fst (gen_golden_data_simple exact_lib sample_draw fs_ready) = None"
    by (simp add: gen_golden_data_simple_def Let_def tofile_def dirname_input_path
        dirname_golden_path fs_ready_def)
  from files_after_success[OF ok] ok show ?thesis by blast
qed

text \<open>
  C3 (as amended). Every sample lies in the half-open interval \<open>[1, 10)\<close>, and every element
  of the stored input tensor, the sample rounded to half precision, is a finite float16
  number of the closed interval \<open>[1, 10]\<close>: rounding keeps a number between the float16
  numbers 1 and 10 but can reach 10 itself.
\<close>

theorem stored_input_range:
  "unit_draws 16384 draw \<Longrightarrow> i < 8 \<Longrightarrow> j < 2048 \<Longrightarrow>
   1 \<le> uniform 1 10 8 2048 draw ! i ! j \<and> uniform 1 10 8 2048 draw ! i ! j < 10 \<and>
   is_finite (gen_input draw ! i ! j) \<and>
   1 \<le> half_real (gen_input draw ! i ! j) \<and> half_real (gen_input draw ! i ! j) \<le> 10"
proof -
  assume d: "unit_draws 16384 draw" and i: "i < 8" and j: "j < 2048"
  from i j have "i * 2048 + j < 16384" by simp
  with d have "0 \<le> draw (i * 2048 + j)" "draw (i * 2048 + j) < 1"
    by (simp_all add: unit_draws_def)
  then have s: "1 \<le> uniform 1 10 8 2048 draw ! i ! j" "uniform 1 10 8 2048 draw ! i ! j < 10"
    unfolding uniform_nth[OF i j] by simp_all
  from stored_elem[OF d i j] obtain v where
    v: "half_val (gen_input draw ! i ! j) = Finite v" "1 \<le> v" "v \<le> 10" by blast
  from is_finite_val[OF v(1)] v(2,3) s show ?thesis by (simp add: half_real_val[OF v(1)])
qed

theorem stored_input_range_witness:
  "unit_draws 16384 sample_draw \<and> (3::nat) < 8 \<and> (5::nat) < 2048 \<and>
   1 \<le> uniform 1 10 8 2048 sample_draw ! 3 ! 5 \<and> uniform 1 10 8 2048 sample_draw ! 3 ! 5 < 10 \<and>
   is_finite (gen_input sample_draw ! 3 ! 5) \<and>
   1 \<le> half_real (gen_input sample_draw ! 3 ! 5) \<and>
   half_real (gen_input sample_draw ! 3 ! 5) \<le> 10"
  using stored_input_range[OF unit_draws_sample_draw, of 3 5] unit_draws_sample_draw by simp

text \<open>
  C3 as stated fails: with a generator that hands out 0.9999 the first sample is 9.9991, a
  number of \<open>[1, 10)\<close>, and the element stored for it is the float16 number 10, which is not
  below 10.
\<close>

theorem stored_input_reaches_ten:
  "unit_draws 16384 high_draw \<and> (0::nat) < 8 \<and> (0::nat) < 2048 \<and>
   uniform 1 10 8 2048 high_draw ! 0 ! 0 = 99991 / 10000 \<and>
   half_val (gen_input high_draw ! 0 ! 0) = Finite 10 \<and>
   \<not> half_real (gen_input high_draw ! 0 ! 0) < 10"
proof -
  have "uniform 1 10 8 2048 high_draw ! 0 ! 0 = 99991 / 10000"
    using uniform_nth[of 0 8 0 2048 1 10 high_draw] by (simp add: high_draw_def)
  then show ?thesis using unit_draws_high_draw stored_high by (simp add: half_real_def)
qed

text \<open>
  C4. The input tensor has 8 rows of 2048 elements each, 16384 elements in all, whatever the
  generator hands out.
\<close>

theorem input_shape:
  "shape (gen_input draw) = replicate 8 2048 \<and> length (gen_input draw) = 8 \<and>
   length (concat (gen_input draw)) = 16384"
proof -
  have "length (gen_input draw) = 8"
    by (simp add: gen_input_def astype_float16_def tmap_def uniform_def)
  moreover have "length (concat (gen_input draw)) = 16384"
    by (simp add: length_concat_shape shape_gen_input sum_list_replicate)
  ultimately show ?thesis by (simp add: shape_gen_input)
qed

text \<open>
  C5. The golden tensor has the shape of the input tensor, 8 rows of 2048 elements, and its
  elements are float16 values like those of the input: both are tensors of 16-bit patterns,
  and the elementwise computation keeps the shape of any tensor it is given.
\<close>

theorem golden_shape:
  "shape (mish L (gen_input draw)) = shape (gen_input draw) \<and>
   shape (mish L (gen_input draw)) = replicate 8 2048 \<and>
   shape (mish L (t :: half tensor)) = shape t"
  by (simp only: shape_mish shape_gen_input)

text \<open>
  C6. With library routines that are accurate and samples in \<open>[1, 10)\<close>, no step of the
  computation of any element overflows: the results of \<open>exp\<close>, of \<open>1 + exp\<close>, of \<open>log\<close>, of
  \<open>tanh\<close> and of the final product are all finite float16 numbers (neither an infinity nor
  a NaN). The largest value \<open>exp\<close> can take here rounds to at most 59072, below the largest
  float16 number 65504.
\<close>

theorem no_overflow:
  "accurate L \<Longrightarrow> unit_draws 16384 draw \<Longrightarrow> i < 8 \<Longrightarrow> j < 2048 \<Longrightarrow>
   is_finite (np_exp L (gen_input draw ! i ! j)) \<and>
   half_real (np_exp L (gen_input draw ! i ! j)) \<le> 59072 \<and>
   is_finite (add16 (half_of_real 1) (np_exp L (gen_input draw ! i ! j))) \<and>
   is_finite (np_log L (add16 (half_of_real 1) (np_exp L (gen_input draw ! i ! j)))) \<and>
   is_finite (np_tanh L (np_log L (add16 (half_of_real 1) (np_exp L (gen_input draw ! i ! j))))) \<and>
   is_finite (mish L (gen_input draw) ! i ! j)"
proof -
  assume L: "accurate L" and r: "unit_draws 16384 draw" and i: "i < 8" and j: "j < 2048"
  let ?x = "gen_input draw ! i ! j"
  from stored_elem[OF r i j] obtain v where
    v: "half_val ?x = Finite v" "1 \<le> v" "v \<le> 10" by blast
  from element_chain[OF L v] obtain w u y z g where
    c: "half_val (np_exp L ?x) = Finite w" "w \<le> 59072"
      "half_val (add16 (half_of_real 1) (np_exp L ?x)) = Finite u"
      "half_val (np_log L (add16 (half_of_real 1) (np_exp L ?x))) = Finite y"
      "half_val (np_tanh L (np_log L (add16 (half_of_real 1) (np_exp L ?x)))) = Finite z"
      "half_val (mul16 ?x (np_tanh L (np_log L (add16 (half_of_real 1) (np_exp L ?x))))) = Finite g"
    by blast
  have m: "mish L (gen_input draw) ! i ! j =
      mul16 ?x (np_tanh L (np_log L (add16 (half_of_real 1) (np_exp L ?x))))"
    by (rule mish_nth[OF shape_gen_input i j])
  show ?thesis
    using is_finite_val[OF c(1)] is_finite_val[OF c(3)] is_finite_val[OF c(4)]
      is_finite_val[OF c(5)] is_finite_val[OF c(6)] c(2)
    by (simp add: m half_real_val[OF c(1)])
qed

theorem no_overflow_witness:
  "accurate exact_lib \<and> unit_draws 16384 sample_draw \<and> (3::nat) < 8 \<and> (5::nat) < 2048 \<and>
   is_finite (np_exp exact_lib (gen_input sample_draw ! 3 ! 5)) \<and>
   is_finite (add16 (half_of_real 1) (np_exp exact_lib (gen_input sample_draw ! 3 ! 5))) \<and>
   is_finite (np_log exact_lib
     (add16 (half_of_real 1) (np_exp exact_lib (gen_input sample_draw ! 3 ! 5)))) \<and>
   is_finite (np_tanh exact_lib (np_log exact_lib
     (add16 (half_of_real 1) (np_exp exact_lib (gen_input sample_draw ! 3 ! 5))))) \<and>
   is_finite (mish exact_lib (gen_input sample_draw) ! 3 ! 5)"
  using no_overflow[OF accurate_exact_lib unit_draws_sample_draw, of 3 5]
    accurate_exact_lib unit_draws_sample_draw
  by simp

text \<open>
  C7. Two runs with the same numeric library whose input tensors are equal compute equal
  golden tensors, and when both end without an exception their golden files hold the same
  bytes, whatever the generators handed out otherwise and whatever the file systems held.
\<close>

theorem golden_deterministic:
  "gen_input draw1 = gen_input draw2 \<Longrightarrow>
   mish L (gen_input draw1) = mish L (gen_input draw2) \<and>
   (fst (gen_golden_data_simple L draw1 fs1) = None \<and>
    fst (gen_golden_data_simple L draw2 fs2) = None \<longrightarrow>
    files (snd (gen_golden_data_simple L draw1 fs1)) golden_path =
    files (snd (gen_golden_data_simple L draw2 fs2)) golden_path)"
proof -
  assume eq: "gen_input draw1 = gen_input draw2"
  have ok: "files (snd (gen_golden_data_simple L d fs)) golden_path =
      Some (tobytes (mish L (gen_input d)))"
    if "fst (gen_golden_data_simple L d fs) = None" for d fs
  proof -
    have d1: "dirs fs (dirname input_path) = Some True"
      using that gen_fail_input[of fs L d]
      by (cases "dirs fs (dirname input_path) = Some True") auto
    have d2: "dirs fs (dirname golden_path) = Some True"
      using that gen_fail_golden[OF d1, of L d]
      by (cases "dirs fs (dirname golden_path) = Some True") auto
    show ?thesis by (simp add: gen_success[OF d1 d2])
  qed
  show ?thesis using eq ok[of draw1 fs1] ok[of draw2 fs2] by simp
qed

theorem golden_deterministic_witness:
  "gen_input sample_draw = gen_input (\<lambda>k. sample_draw (k mod 16384)) \<and>
   mish exact_lib (gen_input sample_draw) =
   mish exact_lib (gen_input (\<lambda>k. sample_draw (k mod 16384))) \<and>
   fst (gen_golden_data_simple exact_lib sample_draw fs_ready) = None \<and>
   fst (gen_golden_data_simple exact_lib (\<lambda>k. sample_draw (k mod 16384))
          (fs_ready\<lparr>files := [golden_path \<mapsto> []]\<rparr>)) = None \<and>
   files (snd (gen_golden_data_simple exact_lib sample_draw fs_ready)) golden_path =
   files (snd (gen_golden_data_simple exact_lib (\<lambda>k. sample_draw (k mod 16384))
          (fs_ready\<lparr>files := [golden_path \<mapsto> []]\<rparr>))) golden_path"
proof -
  have "uniform 1 10 8 2048 sample_draw = uniform 1 10 8 2048 (\<lambda>k. sample_draw (k mod 16384))"
    unfolding uniform_def by (intro map_cong refl) auto
  then have eq: "gen_input sample_draw = gen_input (\<lambda>k. sample_draw (k mod 16384))"
    by (simp add: gen_input_def)
  have ok1: "fst (gen_golden_data_simple exact_lib sample_draw fs_ready) = None"
    by (simp add: gen_golden_data_simple_def Let_def tofile_def dirname_input_path
        dirname_golden_path fs_ready_def)
  have ok2: "fst (gen_golden_data_simple exact_lib (\<lambda>k. sample_draw (k mod 16384))
          (fs_ready\<lparr>files := [golden_path \<mapsto> []]\<rparr>)) = None"
    by (simp add: gen_golden_data_simple_def Let_def tofile_def dirname_input_path
        dirname_golden_path fs_ready_def)
  from golden_deterministic[OF eq, of exact_lib fs_ready "fs_ready\<lparr>files := [golden_path \<mapsto> []]\<rparr>"]
    eq ok1 ok2 show ?thesis by blast
qed



text \<open>
  C9. The input file is written before the golden file. When the input directory accepts the
  file and the output directory is missing or refuses, the run ends with an exception, the
  input file holds the new input tensor and the golden file is as it was before the run
  (absent or stale). When the input directory is missing or refuses, the run ends with an
  exception and the file system is untouched.
\<close>

theorem write_order:
  "(dirs fs (dirname input_path) = Some True \<and> dirs fs (dirname golden_path) \<noteq> Some True \<longrightarrow>
      fst (gen_golden_data_simple L draw fs) \<noteq> None \<and>
      files (snd (gen_golden_data_simple L draw fs)) input_path =
        Some (tobytes (gen_input draw)) \<and>
      files (snd (gen_golden_data_simple L draw fs)) golden_path = files fs golden_path) \<and>
   (dirs fs (dirname input_path) \<noteq> Some True \<longrightarrow>
      fst (gen_golden_data_simple L draw fs) \<noteq> None \<and>
      snd (gen_golden_data_simple L draw fs) = fs)"
proof -
  have a: "fst (gen_golden_data_simple L draw fs) \<noteq> None \<and>
      files (snd (gen_golden_data_simple L draw fs)) input_path =
        Some (tobytes (gen_input draw)) \<and>
      files (snd (gen_golden_data_simple L draw fs)) golden_path = files fs golden_path"
    if "dirs fs (dirname input_path) = Some True" "dirs fs (dirname golden_path) \<noteq> Some True"
    using paths_differ by (simp add: gen_fail_golden[OF that])
  have b: "fst (gen_golden_data_simple L draw fs) \<noteq> None \<and>
      snd (gen_golden_data_simple L draw fs) = fs"
    if "dirs fs (dirname input_path) \<noteq> Some True"
    by (simp add: gen_fail_input[OF that])
  from a b show ?thesis by blast
qed

theorem write_order_witness:
  "dirs fs_no_output (dirname input_path) = Some True \<and>
   dirs fs_no_output (dirname golden_path) \<noteq> Some True \<and>
   fst (gen_golden_data_simple exact_lib sample_draw fs_no_output) \<noteq> None \<and>
   files (snd (gen_golden_data_simple exact_lib sample_draw fs_no_output)) input_path =
     Some (tobytes (gen_input sample_draw)) \<and>
   files (snd (gen_golden_data_simple exact_lib sample_draw fs_no_output)) golden_path = None \<and>
   dirs fs_readonly_input (dirname input_path) \<noteq> Some True \<and>
   fst (gen_golden_data_simple exact_lib sample_draw fs_readonly_input) \<noteq> None \<and>
   snd (gen_golden_data_simple exact_lib sample_draw fs_readonly_input) = fs_readonly_input"
proof -
  have a: "dirs fs_no_output (dirname input_path) = Some True"
    by (simp add: dirname_input_path fs_no_output_def)
  have b: "dirs fs_no_output (dirname golden_path) \<noteq> Some True"
    by (simp add: dirname_golden_path fs_no_output_def)
  have c: "dirs fs_readonly_input (dirname input_path) \<noteq> Some True"
    by (simp add: dirname_input_path fs_readonly_input_def)
  have d: "files fs_no_output golden_path = None"
    by (simp add: fs_no_output_def)
  from write_order[of fs_no_output exact_lib sample_draw]
    write_order[of fs_readonly_input exact_lib sample_draw] a b c d
  show ?thesis by simp
qed

text \<open>
  C10 (as amended). With library routines that are accurate and samples in \<open>[1, 10)\<close>, every
  element of the golden tensor is finite and strictly positive: for every stored input
  element, \<open>1 + exp x\<close> is a finite number of at least \<open>1 + e\<close>, so \<open>log\<close> receives a strictly
  positive argument and returns a finite number, \<open>tanh\<close> of it lies in \<open>(0, 1]\<close>, and the
  product is positive; no NaN and no infinity is produced.
\<close>

theorem golden_finite_positive:
  "accurate L \<Longrightarrow> unit_draws 16384 draw \<Longrightarrow> i < 8 \<Longrightarrow> j < 2048 \<Longrightarrow>
   is_finite (mish L (gen_input draw) ! i ! j) \<and>
   0 < half_real (mish L (gen_input draw) ! i ! j) \<and>
   is_finite (add16 (half_of_real 1) (np_exp L (gen_input draw ! i ! j))) \<and>
   1 + exp 1 \<le> half_real (add16 (half_of_real 1) (np_exp L (gen_input draw ! i ! j))) \<and>
   is_finite (np_log L (add16 (half_of_real 1) (np_exp L (gen_input draw ! i ! j)))) \<and>
   is_finite (np_tanh L (np_log L (add16 (half_of_real 1) (np_exp L (gen_input draw ! i ! j))))) \<and>
   0 < half_real (np_tanh L (np_log L
         (add16 (half_of_real 1) (np_exp L (gen_input draw ! i ! j))))) \<and>
   half_real (np_tanh L (np_log L
         (add16 (half_of_real 1) (np_exp L (gen_input draw ! i ! j))))) \<le> 1"
proof -
  assume L: "accurate L" and r: "unit_draws 16384 draw" and i: "i < 8" and j: "j < 2048"
  let ?x = "gen_input draw ! i ! j"
  from stored_elem[OF r i j] obtain v where
    v: "half_val ?x = Finite v" "1 \<le> v" "v \<le> 10" by blast
  from element_chain[OF L v] obtain w u y z g where
    c: "half_val (add16 (half_of_real 1) (np_exp L ?x)) = Finite u" "119 / 32 \<le> u"
      "half_val (np_log L (add16 (half_of_real 1) (np_exp L ?x))) = Finite y"
      "half_val (np_tanh L (np_log L (add16 (half_of_real 1) (np_exp L ?x)))) = Finite z"
      "1 / 4 \<le> z" "z \<le> 1"
      "half_val (mul16 ?x (np_tanh L (np_log L (add16 (half_of_real 1) (np_exp L ?x))))) = Finite g"
      "1 / 4 \<le> g"
    by blast
  have m: "mish L (gen_input draw) ! i ! j =
      mul16 ?x (np_tanh L (np_log L (add16 (half_of_real 1) (np_exp L ?x))))"
    by (rule mish_nth[OF shape_gen_input i j])
  have e: "1 + exp 1 \<le> u" using e_bounds(2) c(2) by linarith
  have z: "0 < z" using c(5) by linarith
  have g: "0 < g" using c(8) by linarith
  show ?thesis
    using is_finite_val[OF c(1)] is_finite_val[OF c(3)] is_finite_val[OF c(4)]
      is_finite_val[OF c(7)] e z g c(6)
    by (simp add: m half_real_val[OF c(1)] half_real_val[OF c(4)] half_real_val[OF c(7)])
qed

theorem golden_finite_positive_witness:
  "accurate exact_lib \<and> unit_draws 16384 sample_draw \<and> (3::nat) < 8 \<and> (5::nat) < 2048 \<and>
   is_finite (mish exact_lib (gen_input sample_draw) ! 3 ! 5) \<and>
   0 < half_real (mish exact_lib (gen_input sample_draw) ! 3 ! 5) \<and>
   1 + exp 1 \<le> half_real (add16 (half_of_real 1)
         (np_exp exact_lib (gen_input sample_draw ! 3 ! 5))) \<and>
   0 < half_real (np_tanh exact_lib (np_log exact_lib
         (add16 (half_of_real 1) (np_exp exact_lib (gen_input sample_draw ! 3 ! 5))))) \<and>
   half_real (np_tanh exact_lib (np_log exact_lib
         (add16 (half_of_real 1) (np_exp exact_lib (gen_input sample_draw ! 3 ! 5))))) \<le> 1"
  using golden_finite_positive[OF accurate_exact_lib unit_draws_sample_draw, of 3 5]
    accurate_exact_lib unit_draws_sample_draw
  by simp

text \<open>
  C10 as stated fails in one place: the float16 result of \<open>tanh\<close> is not always below 1. For
  the stored element 10, with the library that returns exact values, \<open>tanh\<close> of
  \<open>log (1 + exp 10)\<close> differs from 1 by less than half a float16 step and is rounded to the
  float16 number 1.
\<close>

theorem tanh_reaches_one:
  "accurate exact_lib \<and> unit_draws 16384 high_draw \<and> (0::nat) < 8 \<and> (0::nat) < 2048 \<and>
   half_val (np_tanh exact_lib (np_log exact_lib
      (add16 (half_of_real 1) (np_exp exact_lib (gen_input high_draw ! 0 ! 0))))) = Finite 1 \<and>
   \<not> half_real (np_tanh exact_lib (np_log exact_lib
      (add16 (half_of_real 1) (np_exp exact_lib (gen_input high_draw ! 0 ! 0))))) < 1"
  using tanh_saturates[OF accurate_exact_lib stored_high] accurate_exact_lib unit_draws_high_draw
  by (simp add: half_real_def)

end
